theory Spec2Isabelle
  imports Main "HOL-Library.Word"
begin

section \<open>asterisklint/file.py: the layered line reader\<close>

text \<open>
  The module stacks five generator classes (\<open>BinFileReader\<close>, \<open>EncodingReader\<close>,
  \<open>NoCtrlReader\<close>, \<open>FileformatReader\<close>, \<open>AsteriskCommentReader\<close>) into \<open>FileReader\<close>.
  Each generator is modelled by the function that handles one item of the generator
  below it; diagnostics (the \<open>ErrorDef\<close>/\<open>WarningDef\<close> constructor calls) are returned as
  a list in emission order, and exceptions are values of \<open>error\<close>.

  A Python \<open>bytes\<close> line is a list of 8-bit words; a Python \<open>str\<close> is a list of Unicode
  code points (natural numbers).
\<close>

subsection \<open>Data\<close>

type_synonym byte = "8 word"
type_synonym str = "nat list"

text \<open>
  Modelled from the spec: the class \<open>Where\<close> of the module \<open>where\<close> is not among the
  sources. The specification gives a position the fields source name, line number (from
  1) and raw line; the code constructs it as \<open>Where(filename, lineno, line)\<close> in
  \<open>BinFileReader.__iter__\<close> and reads \<open>where.filename\<close>.
\<close>

record Where =
  filename :: string
  lineno :: nat
  line :: "byte list"

text \<open>
  Modelled from the spec: the classes \<open>ErrorDef\<close> and \<open>WarningDef\<close> of the module
  \<open>defines\<close> are not among the sources. By the specification, constructing one of their
  subclasses with a position emits that diagnostic to the sink and changes nothing else;
  the model records the emissions in order.
\<close>

datatype diag =
    E_FILE_UTF8_BAD Where
  | W_FILE_CTRL_CHAR Where
  | W_FILE_DOS_EOFCRLF Where
  | W_FILE_DOS_BARELF Where
  | W_FILE_UNIX_CRLF Where
  | W_FILE_UNIX_NOLF Where
  | W_WSH_EOL Where

datatype error = OpenFailed | AssertionError | UnicodeDecodeError | IndexError

abbreviation TAB :: nat where "TAB \<equiv> 0x09"
abbreviation LF :: nat where "LF \<equiv> 0x0A"
abbreviation CR :: nat where "CR \<equiv> 0x0D"
abbreviation SPACE :: nat where "SPACE \<equiv> 0x20"
abbreviation SEMI :: nat where "SEMI \<equiv> 0x3B"
abbreviation BACKSLASH :: nat where "BACKSLASH \<equiv> 0x5C"

text \<open>A \<open>str\<close> literal of ASCII characters, as its code points.\<close>

definition ascii :: "string \<Rightarrow> str" where
  "ascii s = map of_char s"

subsection \<open>AsteriskCommentReader\<close>

text \<open>\<open>c in ' \t'\<close> for a one-character string \<open>c\<close>.\<close>

definition is_blank :: "nat \<Rightarrow> bool" where
  "is_blank c \<longleftrightarrow> c = SPACE \<or> c = TAB"

text \<open>\<open>data.index(c)\<close>: the position of the first \<open>c\<close>; \<open>None\<close> is the \<open>ValueError\<close>.\<close>

fun index :: "'a list \<Rightarrow> 'a \<Rightarrow> nat option" where
  "index [] c = None"
| "index (x # xs) c = (if x = c then Some 0 else map_option Suc (index xs c))"

text \<open>\<open>while i > 0 and data[i - 1] in ' \t': i -= 1\<close>, returning the final \<open>i\<close>.\<close>

fun skip_blank_back :: "str \<Rightarrow> nat \<Rightarrow> nat" where
  "skip_blank_back data 0 = 0"
| "skip_blank_back data (Suc i) =
     (if is_blank (data ! i) then skip_blank_back data i else Suc i)"

definition simple_comment_split :: "str \<Rightarrow> str \<times> str" where
  "simple_comment_split data =
     (case index data SEMI of
        None \<Rightarrow> (data, [])
      | Some i0 \<Rightarrow>
          (let i = skip_blank_back data i0 in (take i data, drop i data)))"

text \<open>\<open>data.endswith(tuple(' \t'))\<close> and \<open>data.rstrip(' \t')\<close>.\<close>

definition endswith_blank :: "str \<Rightarrow> bool" where
  "endswith_blank data \<longleftrightarrow> data \<noteq> [] \<and> is_blank (last data)"

definition rstrip_blank :: "str \<Rightarrow> str" where
  "rstrip_blank data = rev (dropWhile is_blank (rev data))"

lemma index_Some_less: "index xs c = Some i \<Longrightarrow> i < length xs"
  by (induction xs arbitrary: i) (auto split: if_splits)

text \<open>
  The \<open>while True\<close> loop of \<open>__iter__\<close>: the state is \<open>data\<close> and \<open>parts\<close>; the result
  is the final \<open>parts\<close> and \<open>comment\<close>.
\<close>

function escape_scan :: "str \<Rightarrow> str list \<Rightarrow> str list \<times> str" where
  "escape_scan data parts =
     (case index data SEMI of
        None \<Rightarrow> (parts @ [data], [])
      | Some i \<Rightarrow>
          if i \<noteq> 0 \<and> data ! (i - 1) = BACKSLASH
          then escape_scan (drop (i + 1) data) (parts @ [take (i - 1) data @ [SEMI]])
          else (parts @ [take i data], drop i data))"
  by pat_completeness auto
termination
  by (relation "measure (\<lambda>(data, parts). length data)")
     (auto dest: index_Some_less)

declare escape_scan.simps [simp del]

text \<open>
  The slow path of \<open>__iter__\<close>, from \<open>i = 0; parts = []\<close> to the move of the trailing
  whitespace of \<open>data\<close> into \<open>comment\<close>.
\<close>

definition escape_comment_split :: "str \<Rightarrow> str \<times> str" where
  "escape_comment_split data0 =
     (let (parts, comment0) = escape_scan data0 [];
          data = concat parts;
          i = skip_blank_back data (length data);
          comment = drop i data @ comment0
      in (take i data, comment))"

text \<open>The body of the \<open>for\<close> loop of \<open>AsteriskCommentReader.__iter__\<close>, for one item.\<close>

definition comment_split :: "str \<Rightarrow> str \<times> str" where
  "comment_split data =
     (if BACKSLASH \<notin> set data then simple_comment_split data
      else escape_comment_split data)"

definition AsteriskCommentReader_step ::
  "Where \<times> str \<Rightarrow> diag list \<times> (Where \<times> str \<times> str)" where
  "AsteriskCommentReader_step item =
     (let (wh, data0) = item;
          (ds, data) = (if endswith_blank data0
                        then ([W_WSH_EOL wh], rstrip_blank data0)
                        else ([], data0));
          (code, comment) = comment_split data
      in (ds, (wh, code, comment)))"

subsection \<open>EncodingReader\<close>

text \<open>
  \<open>bytes.decode('utf-8')\<close> and \<open>bytes.decode('cp1252')\<close> are the codecs of the Python
  standard library, in strict mode; \<open>None\<close> is the \<open>UnicodeDecodeError\<close>. The UTF-8
  decoder accepts the well-formed byte sequences only: no overlong forms, no surrogates,
  nothing above U+10FFFF.
\<close>

definition is_cont :: "byte \<Rightarrow> bool" where
  "is_cont b \<longleftrightarrow> 0x80 \<le> b \<and> b \<le> 0xBF"

text \<open>
  The code point that starts with byte \<open>b0\<close>, followed by \<open>bs\<close>, and the number of bytes
  of \<open>bs\<close> it takes.
\<close>

definition utf8_first :: "byte \<Rightarrow> byte list \<Rightarrow> (nat \<times> nat) option" where
  "utf8_first b0 bs =
     (if b0 < 0x80 then Some (unat b0, 0)
      else if 0xC2 \<le> b0 \<and> b0 \<le> 0xDF then
        (case bs of
           b1 # _ \<Rightarrow>
             if is_cont b1
             then Some ((unat b0 - 0xC0) * 64 + (unat b1 - 0x80), 1)
             else None
         | _ \<Rightarrow> None)
      else if 0xE0 \<le> b0 \<and> b0 \<le> 0xEF then
        (case bs of
           b1 # b2 # _ \<Rightarrow>
             if (if b0 = 0xE0 then 0xA0 else 0x80) \<le> b1
                \<and> b1 \<le> (if b0 = 0xED then 0x9F else 0xBF) \<and> is_cont b2
             then Some (((unat b0 - 0xE0) * 64 + (unat b1 - 0x80)) * 64 + (unat b2 - 0x80), 2)
             else None
         | _ \<Rightarrow> None)
      else if 0xF0 \<le> b0 \<and> b0 \<le> 0xF4 then
        (case bs of
           b1 # b2 # b3 # _ \<Rightarrow>
             if (if b0 = 0xF0 then 0x90 else 0x80) \<le> b1
                \<and> b1 \<le> (if b0 = 0xF4 then 0x8F else 0xBF) \<and> is_cont b2 \<and> is_cont b3
             then Some ((((unat b0 - 0xF0) * 64 + (unat b1 - 0x80)) * 64
                          + (unat b2 - 0x80)) * 64 + (unat b3 - 0x80), 3)
             else None
         | _ \<Rightarrow> None)
      else None)"

fun utf8_decode :: "byte list \<Rightarrow> str option" where
  "utf8_decode [] = Some []"
| "utf8_decode (b0 # bs) =
     (case utf8_first b0 bs of
        None \<Rightarrow> None
      | Some (cp, n) \<Rightarrow> map_option ((#) cp) (utf8_decode (drop n bs)))"

text \<open>
  The decoding table of \<open>encodings/cp1252.py\<close> for the bytes 0x80 to 0x9F; the five
  entries U+FFFE are the bytes the table leaves undefined. Every other byte maps to the
  code point of the same number.
\<close>

definition cp1252_high :: "nat list" where
  "cp1252_high =
     [0x20AC, 0xFFFE, 0x201A, 0x0192, 0x201E, 0x2026, 0x2020, 0x2021,
      0x02C6, 0x2030, 0x0160, 0x2039, 0x0152, 0xFFFE, 0x017D, 0xFFFE,
      0xFFFE, 0x2018, 0x2019, 0x201C, 0x201D, 0x2022, 0x2013, 0x2014,
      0x02DC, 0x2122, 0x0161, 0x203A, 0x0153, 0xFFFE, 0x017E, 0x0178]"

definition cp1252_char :: "byte \<Rightarrow> nat option" where
  "cp1252_char b =
     (if 0x80 \<le> b \<and> b \<le> 0x9F then
        (let cp = cp1252_high ! (unat b - 0x80)
         in if cp = 0xFFFE then None else Some cp)
      else Some (unat b))"

fun cp1252_decode :: "byte list \<Rightarrow> str option" where
  "cp1252_decode [] = Some []"
| "cp1252_decode (b # bs) =
     (case cp1252_char b of
        None \<Rightarrow> None
      | Some cp \<Rightarrow> map_option ((#) cp) (cp1252_decode bs))"

text \<open>
  The body of the \<open>for\<close> loop of \<open>EncodingReader.__iter__\<close>: the diagnostics emitted,
  and the item yielded or the exception that leaves the generator.
\<close>

definition EncodingReader_step ::
  "Where \<times> byte list \<Rightarrow> diag list \<times> (error + Where \<times> str)" where
  "EncodingReader_step item =
     (let (wh, data) = item in
      case utf8_decode data of
        Some t \<Rightarrow> ([], Inr (wh, t))
      | None \<Rightarrow>
          (case cp1252_decode data of
             Some t \<Rightarrow> ([E_FILE_UTF8_BAD wh], Inr (wh, t))
           | None \<Rightarrow> ([E_FILE_UTF8_BAD wh], Inl UnicodeDecodeError)))"

subsection \<open>NoCtrlReader\<close>

definition illegal :: "nat set" where
  "illegal = set [0x00, 0x01, 0x02, 0x03, 0x04, 0x05, 0x06, 0x07,
                  0x08, 0x0B, 0x0C, 0x0E, 0x0F,
                  0x10, 0x11, 0x12, 0x13, 0x14, 0x15, 0x16, 0x17,
                  0x18, 0x19, 0x1A, 0x1B, 0x1C, 0x1D, 0x1E, 0x1F]"

definition NoCtrlReader_step :: "Where \<times> str \<Rightarrow> diag list \<times> (Where \<times> str)" where
  "NoCtrlReader_step item =
     (let (wh, data) = item;
          charset = set data;
          union = charset \<inter> illegal
      in (if union \<noteq> {} then [W_FILE_CTRL_CHAR wh] else [], (wh, data)))"

subsection \<open>FileformatReader\<close>

text \<open>
  One element \<open>[filename, is_dos, latest_has_lf, where]\<close> of the list \<open>fileinfo\<close>. The
  model keeps \<open>fileinfo\<close> with its last element first: \<open>fileinfo[-1]\<close> is the head.
\<close>

record entry =
  fi_fn :: string
  fi_is_dos :: "bool option"
  fi_latest_has_lf :: "bool option"
  fi_last_where :: Where

text \<open>
  \<open>_pop_fileinfo(fileinfo, stop_at)\<close>; \<open>stop_at\<close> is a filename or \<open>None\<close>. The result is
  the diagnostics emitted and the list as the loop leaves it, or the failed assertion.
\<close>

fun pop_fileinfo :: "entry list \<Rightarrow> string option \<Rightarrow> diag list \<times> (error + entry list)" where
  "pop_fileinfo [] stop_at = ([], Inr [])"
| "pop_fileinfo (e # rest) stop_at =
     (if Some (fi_fn e) \<noteq> stop_at then
        (case (fi_is_dos e, fi_latest_has_lf e) of
           (Some is_dos, Some latest_has_lf) \<Rightarrow>
             (let ds = (if is_dos \<and> latest_has_lf then [W_FILE_DOS_EOFCRLF (fi_last_where e)]
                        else if \<not> is_dos \<and> \<not> latest_has_lf then [W_FILE_UNIX_NOLF (fi_last_where e)]
                        else []);
                  (ds', r) = pop_fileinfo rest stop_at
              in (ds @ ds', r))
         | _ \<Rightarrow> ([], Inl AssertionError))
      else ([], Inr (e # rest)))"

text \<open>\<open>data.endswith('\r\n')\<close> and \<open>data.endswith('\n')\<close>.\<close>

definition endswith :: "str \<Rightarrow> str \<Rightarrow> bool" where
  "endswith data suffix \<longleftrightarrow> suffix = drop (length data - length suffix) data"

text \<open>
  What \<open>FileformatReader.__iter__\<close> keeps between two items: the list \<open>fileinfo\<close> and
  the local variable \<open>is_dos\<close>, which is assigned only when the file changes or when it
  is \<open>None\<close>.
\<close>

record ff_state =
  fileinfo :: "entry list"
  is_dos :: "bool option"

definition ff_init :: ff_state where
  "ff_init = \<lparr>fileinfo = [], is_dos = None\<rparr>"

text \<open>
  Lines 118 to 127: the selection of the entry of the file the line comes from. The
  result is \<open>fileinfo\<close>, \<open>is_dos\<close> and \<open>where\<close> as line 129 finds them.
\<close>

definition select_fileinfo ::
  "ff_state \<Rightarrow> Where \<Rightarrow> diag list \<times> (error + entry list \<times> bool option \<times> Where)" where
  "select_fileinfo s wh =
     (if fileinfo s = [] \<or> fi_fn (hd (fileinfo s)) \<noteq> filename wh then
        (let (ds, r) =
               (if filename wh \<in> set (map fi_fn (fileinfo s))
                then pop_fileinfo (fileinfo s) (Some (filename wh))
                else ([], Inr (\<lparr>fi_fn = filename wh, fi_is_dos = None,
                                 fi_latest_has_lf = None, fi_last_where = wh\<rparr> # fileinfo s)))
         in case r of
              Inl e \<Rightarrow> (ds, Inl e)
            | Inr [] \<Rightarrow> (ds, Inl IndexError)
            | Inr (e # rest) \<Rightarrow> (ds, Inr (e # rest, fi_is_dos e, fi_last_where e)))
      else ([], Inr (fileinfo s, is_dos s, wh)))"

text \<open>Lines 129 to 150, on the selected entry \<open>e\<close>, the top of \<open>fileinfo\<close>.\<close>

definition check_line ::
  "entry \<Rightarrow> bool option \<Rightarrow> Where \<Rightarrow> str \<Rightarrow> diag list \<times> entry \<times> bool option \<times> str" where
  "check_line e is_dos0 wh data =
     (let has_crlf = endswith data [CR, LF];
          has_lf = endswith data [LF];
          e1 = e\<lparr>fi_latest_has_lf := Some has_lf, fi_last_where := wh\<rparr>;
          (is_dos1, e2) = (case is_dos0 of
                             None \<Rightarrow> (has_crlf \<or> \<not> has_lf,
                                       e1\<lparr>fi_is_dos := Some (has_crlf \<or> \<not> has_lf)\<rparr>)
                           | Some d \<Rightarrow> (d, e1));
          ds = (if is_dos1
                then (if has_lf \<and> \<not> has_crlf then [W_FILE_DOS_BARELF wh] else [])
                else (if has_crlf then [W_FILE_UNIX_CRLF wh] else []));
          data1 = (if has_crlf then take (length data - 2) data
                   else if has_lf then take (length data - 1) data
                   else data)
      in (ds, e2, Some is_dos1, data1))"

text \<open>The body of the \<open>for\<close> loop of \<open>FileformatReader.__iter__\<close>, for one item.\<close>

definition FileformatReader_step ::
  "ff_state \<Rightarrow> Where \<times> str \<Rightarrow> diag list \<times> (error + ff_state \<times> (Where \<times> str))" where
  "FileformatReader_step s item =
     (let (wh0, data) = item;
          (ds, r) = select_fileinfo s wh0
      in case r of
           Inl e \<Rightarrow> (ds, Inl e)
         | Inr ([], _, _) \<Rightarrow> (ds, Inl IndexError)
         | Inr (e # rest, is_dos0, wh) \<Rightarrow>
             (let (ds', e', is_dos', data') = check_line e is_dos0 wh data
              in (ds @ ds', Inr (\<lparr>fileinfo = e' # rest, is_dos = is_dos'\<rparr>, (wh, data')))))"

text \<open>The call \<open>self._pop_fileinfo(fileinfo, None)\<close> after the loop.\<close>

definition FileformatReader_finish :: "ff_state \<Rightarrow> diag list \<times> error option" where
  "FileformatReader_finish s =
     (case pop_fileinfo (fileinfo s) None of
        (ds, Inl e) \<Rightarrow> (ds, Some e)
      | (ds, Inr _) \<Rightarrow> (ds, None))"

text \<open>
  The \<open>for\<close> loop on the items of the generator below: the diagnostics emitted, the
  items yielded, and the state after the last item or the exception that ended the loop.
\<close>

fun FileformatReader_loop ::
  "ff_state \<Rightarrow> (Where \<times> str) list
     \<Rightarrow> diag list \<times> (Where \<times> str) list \<times> (error + ff_state)" where
  "FileformatReader_loop s [] = ([], [], Inr s)"
| "FileformatReader_loop s (item # items) =
     (case FileformatReader_step s item of
        (ds, Inl e) \<Rightarrow> (ds, [], Inl e)
      | (ds, Inr (s', out)) \<Rightarrow>
          (let (ds', outs, r) = FileformatReader_loop s' items
           in (ds @ ds', out # outs, r)))"

text \<open>
  The whole generator: the loop from \<open>fileinfo = []\<close>, then the final
  \<open>_pop_fileinfo\<close>. The result is the diagnostics emitted, the items yielded, and the
  exception that ended the generator, if any.
\<close>

definition FileformatReader_iter ::
  "(Where \<times> str) list \<Rightarrow> diag list \<times> (Where \<times> str) list \<times> error option" where
  "FileformatReader_iter items =
     (case FileformatReader_loop ff_init items of
        (ds, outs, Inl e) \<Rightarrow> (ds, outs, Some e)
      | (ds, outs, Inr s) \<Rightarrow>
          (let (ds', err) = FileformatReader_finish s in (ds @ ds', outs, err)))"

subsection \<open>BinFileReader\<close>

text \<open>
  What the opener returns: an object with a \<open>name\<close>, possibly a \<open>mode\<close>, possibly a
  \<open>close\<close> method, and the lines that iterating it gives.
\<close>

record fileobj =
  fp_name :: string
  fp_mode :: "string option"
  fp_has_close :: bool
  fp_lines :: "byte list list"

text \<open>
  The three lists \<open>_files\<close>, \<open>_generators\<close> and \<open>_filenames\<close> grow and shrink together;
  the model keeps them as one list of sources, last element first. A source is the file
  object, the lines that \<open>enumerate(fp)\<close> has not given yet and its counter. Each object
  the opener returns gets a handle, its index in \<open>opened\<close>; \<open>closed\<close> records the
  calls of \<open>close\<close>, in order.
\<close>

record source =
  src_handle :: nat
  src_fp :: fileobj
  src_pending :: "byte list list"
  src_count :: nat





text \<open>
  One \<open>next\<close> on the generator \<open>BinFileReader.__iter__\<close>: the loop runs until a source
  gives a line, closing and popping the exhausted ones; \<open>None\<close> is the end of the
  generator.
\<close>

fun next_source ::
  "source list \<Rightarrow> nat list \<Rightarrow> (Where \<times> byte list) option \<times> source list \<times> nat list" where
  "next_source [] cl = (None, [], cl)"
| "next_source (s # rest) cl =
     (case src_pending s of
        [] \<Rightarrow> next_source rest (if fp_has_close (src_fp s) then cl @ [src_handle s] else cl)
      | l # ls \<Rightarrow>
          (Some (\<lparr>filename = fp_name (src_fp s), lineno = src_count s + 1, line = l\<rparr>, l),
           s\<lparr>src_pending := ls, src_count := src_count s + 1\<rparr> # rest, cl))"




subsection \<open>FileReader\<close>

text \<open>
  \<open>FileReader\<close> stacks the five classes: one line of \<open>BinFileReader\<close> goes through
  \<open>EncodingReader\<close>, \<open>NoCtrlReader\<close>, \<open>FileformatReader\<close> and \<open>AsteriskCommentReader\<close>
  before the next line is read, so the diagnostics of one line are emitted together.
\<close>

definition FileReader_step ::
  "ff_state \<Rightarrow> Where \<times> byte list
     \<Rightarrow> diag list \<times> (error + ff_state \<times> (Where \<times> str \<times> str))" where
  "FileReader_step s item =
     (case EncodingReader_step item of
        (ds1, Inl e) \<Rightarrow> (ds1, Inl e)
      | (ds1, Inr item1) \<Rightarrow>
          (let (ds2, item2) = NoCtrlReader_step item1 in
           case FileformatReader_step s item2 of
             (ds3, Inl e) \<Rightarrow> (ds1 @ ds2 @ ds3, Inl e)
           | (ds3, Inr (s', item3)) \<Rightarrow>
               (let (ds4, out) = AsteriskCommentReader_step item3
                in (ds1 @ ds2 @ ds3 @ ds4, Inr (s', out)))))"

fun FileReader_loop ::
  "ff_state \<Rightarrow> (Where \<times> byte list) list
     \<Rightarrow> diag list \<times> (Where \<times> str \<times> str) list \<times> (error + ff_state)" where
  "FileReader_loop s [] = ([], [], Inr s)"
| "FileReader_loop s (item # items) =
     (case FileReader_step s item of
        (ds, Inl e) \<Rightarrow> (ds, [], Inl e)
      | (ds, Inr (s', out)) \<Rightarrow>
          (let (ds', outs, r) = FileReader_loop s' items
           in (ds @ ds', out # outs, r)))"

text \<open>
  The whole reader on the lines that \<open>BinFileReader\<close> gives: the diagnostics emitted,
  the line records yielded, and the exception that ended the iteration, if any.
\<close>

definition FileReader_iter ::
  "(Where \<times> byte list) list \<Rightarrow> diag list \<times> (Where \<times> str \<times> str) list \<times> error option" where
  "FileReader_iter items =
     (case FileReader_loop ff_init items of
        (ds, outs, Inl e) \<Rightarrow> (ds, outs, Some e)
      | (ds, outs, Inr s) \<Rightarrow>
          (let (ds', err) = FileformatReader_finish s in (ds @ ds', outs, err)))"

subsection \<open>Notions of the specification\<close>

text \<open>
  An escaped delimiter: a backslash immediately before a \<open>;\<close>.
\<close>

fun has_escaped_delim :: "str \<Rightarrow> bool" where
  "has_escaped_delim (x # y # xs) \<longleftrightarrow> (x = BACKSLASH \<and> y = SEMI) \<or> has_escaped_delim (y # xs)"
| "has_escaped_delim _ \<longleftrightarrow> False"

text \<open>
  The two tests of a line's end, the text without its terminator, the diagnostics of one
  line under a convention (\<open>True\<close> is DOS), and the diagnostics for an entry when it is
  popped.
\<close>

definition has_crlf :: "str \<Rightarrow> bool" where
  "has_crlf data = endswith data [CR, LF]"

definition has_lf :: "str \<Rightarrow> bool" where
  "has_lf data = endswith data [LF]"

definition strip_eol :: "str \<Rightarrow> str" where
  "strip_eol data =
     (if has_crlf data then take (length data - 2) data
      else if has_lf data then take (length data - 1) data
      else data)"

definition line_diags :: "bool \<Rightarrow> Where \<Rightarrow> str \<Rightarrow> diag list" where
  "line_diags dos wh data =
     (if dos then (if has_lf data \<and> \<not> has_crlf data then [W_FILE_DOS_BARELF wh] else [])
      else (if has_crlf data then [W_FILE_UNIX_CRLF wh] else []))"

definition eof_diags :: "entry \<Rightarrow> diag list" where
  "eof_diags e =
     (if fi_is_dos e = Some True \<and> fi_latest_has_lf e = Some True
      then [W_FILE_DOS_EOFCRLF (fi_last_where e)]
      else if fi_is_dos e = Some False \<and> fi_latest_has_lf e = Some False
      then [W_FILE_UNIX_NOLF (fi_last_where e)]
      else [])"

text \<open>An entry whose convention and last line end are set.\<close>

definition known :: "entry \<Rightarrow> bool" where
  "known e \<longleftrightarrow> fi_is_dos e \<noteq> None \<and> fi_latest_has_lf e \<noteq> None"

text \<open>Positions used in the examples, each with the bytes of its line.\<close>

definition w0 :: Where where
  "w0 = \<lparr>filename = ''extensions.conf'', lineno = 1,
          line = [0x61, 0x5C, 0x62, 0x20, 0x3B, 0x20, 0x63]\<rparr>"

definition a1 :: Where where
  "a1 = \<lparr>filename = ''a.conf'', lineno = 1, line = [0x61, 0x0D, 0x0A]\<rparr>"

definition a2 :: Where where
  "a2 = \<lparr>filename = ''a.conf'', lineno = 2, line = [0x62, 0x0D, 0x0A]\<rparr>"

text \<open>
  What holds of the state of the tracker between two lines: every entry has its convention
  and its last line end set, and the local variable \<open>is_dos\<close> is the convention of the
  top entry.
\<close>

definition ff_inv :: "ff_state \<Rightarrow> bool" where
  "ff_inv s \<longleftrightarrow> (\<forall>e \<in> set (fileinfo s). known e)
     \<and> (fileinfo s \<noteq> [] \<longrightarrow> is_dos s = fi_is_dos (hd (fileinfo s)))"

text \<open>
  The lines of a parent file after an include, with the positions the tracker yields for
  them: the first one gets the position stored in the parent's entry.
\<close>

definition rebound :: "Where \<Rightarrow> (Where \<times> str) list \<Rightarrow> (Where \<times> str) list" where
  "rebound w post = (case post of [] \<Rightarrow> [] | (_, x) # r \<Rightarrow> (w, x) # r)"

text \<open>Lines of a parent file \<open>p.conf\<close> and of a file \<open>c.conf\<close> that it includes.\<close>

definition p1 :: Where where
  "p1 = \<lparr>filename = ''p.conf'', lineno = 1, line = [0x61, 0x0A]\<rparr>"

definition p2 :: Where where
  "p2 = \<lparr>filename = ''p.conf'', lineno = 2, line = [0x62, 0x0A]\<rparr>"

definition p2crlf :: Where where
  "p2crlf = \<lparr>filename = ''p.conf'', lineno = 2, line = [0x62, 0x0D, 0x0A]\<rparr>"

definition c1 :: Where where
  "c1 = \<lparr>filename = ''c.conf'', lineno = 1, line = [0x78, 0x0D, 0x0A]\<rparr>"

definition c2 :: Where where
  "c2 = \<lparr>filename = ''c.conf'', lineno = 2, line = [0x79]\<rparr>"

definition c2crlf :: Where where
  "c2crlf = \<lparr>filename = ''c.conf'', lineno = 2, line = [0x79, 0x0D, 0x0A]\<rparr>"

text \<open>States of the tracker used in the examples.\<close>

definition s_dos :: ff_state where
  "s_dos = \<lparr>fileinfo = [\<lparr>fi_fn = ''a.conf'', fi_is_dos = Some True,
                          fi_latest_has_lf = Some True, fi_last_where = a1\<rparr>],
            is_dos = Some True\<rparr>"

definition s_dos' :: ff_state where
  "s_dos' = \<lparr>fileinfo = [\<lparr>fi_fn = ''a.conf'', fi_is_dos = Some True,
                          fi_latest_has_lf = Some True, fi_last_where = a2\<rparr>],
            is_dos = Some True\<rparr>"

definition s_incl :: ff_state where
  "s_incl = \<lparr>fileinfo = [\<lparr>fi_fn = ''c.conf'', fi_is_dos = Some True,
                          fi_latest_has_lf = Some True, fi_last_where = c1\<rparr>,
                         \<lparr>fi_fn = ''p.conf'', fi_is_dos = Some False,
                          fi_latest_has_lf = Some True, fi_last_where = p1\<rparr>],
            is_dos = Some True\<rparr>"




text \<open>
  The text that \<open>EncodingReader\<close> yields for a byte line, if it yields one; a line
  without its terminator and its trailing blanks, which is what the splitter splits; and
  a text that has a line feed at its end only, as the lines of a file have, no illegal
  control character and no escaped delimiter.
\<close>

definition decoded :: "byte list \<Rightarrow> str option" where
  "decoded raw = (case utf8_decode raw of Some t \<Rightarrow> Some t | None \<Rightarrow> cp1252_decode raw)"

definition cleaned :: "str \<Rightarrow> str" where
  "cleaned t = rstrip_blank (strip_eol t)"

definition plain_text :: "str \<Rightarrow> bool" where
  "plain_text t \<longleftrightarrow> LF \<notin> set (butlast t) \<and> set t \<inter> illegal = {} \<and> \<not> has_escaped_delim t"

text \<open>Two positions of the same line: the same file name and line number.\<close>

definition same_pos :: "Where \<Rightarrow> Where \<Rightarrow> bool" where
  "same_pos w1 w2 \<longleftrightarrow> filename w1 = filename w2 \<and> lineno w1 = lineno w2"

text \<open>
  Two line records with the same code and comment, for the same line. An input that
  holds the output of a first run: for each line, a position of the same line and bytes
  that decode as UTF-8 to the code followed by the comment of its record.
\<close>

definition same_record :: "Where \<times> str \<times> str \<Rightarrow> Where \<times> str \<times> str \<Rightarrow> bool" where
  "same_record r1 r2 \<longleftrightarrow> same_pos (fst r1) (fst r2) \<and> snd r1 = snd r2"

fun rerun_input ::
  "(Where \<times> byte list) list \<Rightarrow> (Where \<times> str \<times> str) list \<Rightarrow> (Where \<times> byte list) list \<Rightarrow> bool" where
  "rerun_input [] [] [] \<longleftrightarrow> True"
| "rerun_input ((w1, raw1) # items) ((w, code, comment) # recs) ((w2, raw2) # items2) \<longleftrightarrow>
     same_pos w1 w2 \<and> utf8_decode raw2 = Some (code @ comment) \<and> rerun_input items recs items2"
| "rerun_input _ _ _ \<longleftrightarrow> False"

text \<open>
  The code points a \<open>str\<close> can be encoded from: up to U+10FFFF, the surrogates excluded.
  \<open>str.encode('utf-8')\<close> of the Python standard library, on such code points.
\<close>

definition is_scalar :: "nat \<Rightarrow> bool" where
  "is_scalar cp \<longleftrightarrow> cp < 0x110000 \<and> \<not> (0xD800 \<le> cp \<and> cp < 0xE000)"

definition utf8_encode_char :: "nat \<Rightarrow> byte list" where
  "utf8_encode_char cp =
     (if cp < 0x80 then [of_nat cp]
      else if cp < 0x800 then [of_nat (0xC0 + cp div 64), of_nat (0x80 + cp mod 64)]
      else if cp < 0x10000 then
        [of_nat (0xE0 + cp div 4096), of_nat (0x80 + cp div 64 mod 64), of_nat (0x80 + cp mod 64)]
      else
        [of_nat (0xF0 + cp div 262144), of_nat (0x80 + cp div 4096 mod 64),
         of_nat (0x80 + cp div 64 mod 64), of_nat (0x80 + cp mod 64)])"

definition utf8_encode :: "str \<Rightarrow> byte list" where
  "utf8_encode t = concat (map utf8_encode_char t)"

text \<open>
  The output of a run written back as input: each line keeps its file name and line
  number, and its bytes are the UTF-8 form of the code followed by the comment of its
  record.
\<close>

definition recode ::
  "(Where \<times> byte list) list \<Rightarrow> (Where \<times> str \<times> str) list \<Rightarrow> (Where \<times> byte list) list" where
  "recode items recs =
     map2 (\<lambda>(w, raw) (w', code, comment).
             (w\<lparr>line := utf8_encode (code @ comment)\<rparr>, utf8_encode (code @ comment)))
       items recs"

text \<open>
  The states of the tracker in the two runs, line by line: the same files are open, their
  entries hold positions of the same lines, and in the second run every entry is DOS with
  a last line without LF.
\<close>

definition ent_rel :: "entry \<Rightarrow> entry \<Rightarrow> bool" where
  "ent_rel e1 e2 \<longleftrightarrow> fi_fn e1 = fi_fn e2 \<and> same_pos (fi_last_where e1) (fi_last_where e2)
     \<and> fi_is_dos e2 = Some True \<and> fi_latest_has_lf e2 = Some False"

definition sim :: "ff_state \<Rightarrow> ff_state \<Rightarrow> bool" where
  "sim s1 s2 \<longleftrightarrow> ff_inv s1 \<and> list_all2 ent_rel (fileinfo s1) (fileinfo s2)
     \<and> (fileinfo s2 \<noteq> [] \<longrightarrow> is_dos s2 = Some True)"

text \<open>A line with an escaped delimiter and a control character, a plain line, and both as cleaned.\<close>

definition x1 :: Where where
  "x1 = \<lparr>filename = ''x.conf'', lineno = 1, line = [0x61, 0x5C, 0x3B, 0x62, 0x01, 0x0A]\<rparr>"

definition x1c :: Where where
  "x1c = \<lparr>filename = ''x.conf'', lineno = 1, line = [0x61, 0x3B, 0x62, 0x01]\<rparr>"

definition y1 :: Where where
  "y1 = \<lparr>filename = ''y.conf'', lineno = 1, line = [0x61, 0x20, 0x3B, 0x20, 0x63, 0x20, 0x0A]\<rparr>"

definition y1c :: Where where
  "y1c = \<lparr>filename = ''y.conf'', lineno = 1, line = [0x61, 0x20, 0x3B, 0x20, 0x63]\<rparr>"

section \<open>Properties of the comment splitter\<close>

lemma index_Some_nth: "index xs c = Some i \<Longrightarrow> xs ! i = c"
  by (induction xs arbitrary: i) (auto split: if_splits)

lemma index_None_iff: "index xs c = None \<longleftrightarrow> c \<notin> set xs"
  by (induction xs) auto

lemma has_escaped_delim_nth:
  "Suc i < length xs \<Longrightarrow> xs ! i = BACKSLASH \<Longrightarrow> xs ! Suc i = SEMI \<Longrightarrow> has_escaped_delim xs"
proof (induction xs arbitrary: i rule: has_escaped_delim.induct)
  case (1 x y xs)
  then show ?case by (cases i) auto
qed auto

lemma no_backslash_no_escaped: "BACKSLASH \<notin> set data \<Longrightarrow> \<not> has_escaped_delim data"
  by (induction data rule: has_escaped_delim.induct) auto

lemma skip_blank_back_le: "skip_blank_back data i \<le> i"
  by (induction i) auto

lemma skip_blank_back_take:
  "k \<le> i \<Longrightarrow> skip_blank_back (take i data) k = skip_blank_back data k"
  by (induction k) auto

lemma skip_blank_back_full:
  "\<not> endswith_blank data \<Longrightarrow> skip_blank_back data (length data) = length data"
  by (cases data rule: rev_cases) (auto simp: endswith_blank_def)

lemma drop_take_drop:
  assumes "j \<le> i"
  shows "drop j (take i xs) @ drop i xs = drop j xs"
proof -
  have "drop j xs = drop j (take i xs @ drop i xs)"
    by (simp only: append_take_drop_id)
  also have "\<dots> = drop j (take i xs) @ drop (j - length (take i xs)) (drop i xs)"
    by (rule drop_append)
  also have "drop (j - length (take i xs)) (drop i xs) = drop i xs"
    using assms by (cases "i \<le> length xs") (auto simp: min_def)
  finally show ?thesis by simp
qed

lemma simple_comment_split_concat:
  "simple_comment_split data = (c, m) \<Longrightarrow> c @ m = data"
  by (auto simp: simple_comment_split_def Let_def split: option.splits)

text \<open>Without an escaped delimiter the scanning loop stops at its first round.\<close>

lemma escape_scan_plain:
  assumes "\<not> has_escaped_delim data"
  shows "escape_scan data ps =
    (case index data SEMI of
       None \<Rightarrow> (ps @ [data], [])
     | Some i \<Rightarrow> (ps @ [take i data], drop i data))"
proof (cases "index data SEMI")
  case None
  then show ?thesis by (simp add: escape_scan.simps)
next
  case (Some i)
  have "\<not> (i \<noteq> 0 \<and> data ! (i - 1) = BACKSLASH)"
  proof
    assume a: "i \<noteq> 0 \<and> data ! (i - 1) = BACKSLASH"
    then obtain k where k: "i = Suc k" by (cases i) auto
    from Some have "i < length data" "data ! i = SEMI"
      by (auto dest: index_Some_less index_Some_nth)
    with a k have "has_escaped_delim data"
      by (auto intro: has_escaped_delim_nth)
    with assms show False by simp
  qed
  with Some show ?thesis by (subst escape_scan.simps) auto
qed

lemma escape_comment_split_concat:
  assumes "\<not> has_escaped_delim data" "escape_comment_split data = (c, m)"
  shows "c @ m = data"
proof (cases "index data SEMI")
  case None
  with assms show ?thesis
    by (auto simp: escape_comment_split_def escape_scan_plain Let_def)
next
  case (Some i)
  let ?d = "take i data"
  let ?j = "skip_blank_back ?d (length ?d)"
  from Some assms have "c = take ?j ?d" "m = drop ?j ?d @ drop i data"
    by (auto simp: escape_comment_split_def escape_scan_plain Let_def)
  then have "c @ m = (take ?j ?d @ drop ?j ?d) @ drop i data"
    by simp
  also have "\<dots> = data"
    by (simp only: append_take_drop_id)
  finally show ?thesis .
qed

lemma rstrip_blank_prefix: "\<exists>suf. x = rstrip_blank x @ suf"
proof -
  have "x = rev (takeWhile is_blank (rev x) @ dropWhile is_blank (rev x))"
    by simp
  also have "\<dots> = rstrip_blank x @ rev (takeWhile is_blank (rev x))"
    by (simp only: rev_append rstrip_blank_def)
  finally show ?thesis ..
qed

lemma rstrip_blank_not_blank: "\<not> endswith_blank (rstrip_blank x)"
proof -
  have "dropWhile is_blank (rev x) = [] \<or> \<not> is_blank (hd (dropWhile is_blank (rev x)))"
    by (metis hd_dropWhile)
  then show ?thesis
    by (auto simp: endswith_blank_def rstrip_blank_def last_rev)
qed

lemma rstrip_blank_id: "\<not> endswith_blank x \<Longrightarrow> rstrip_blank x = x"
  by (cases x rule: rev_cases) (auto simp: endswith_blank_def rstrip_blank_def)

text \<open>
  Claim C6. For a line text that has no escaped delimiter and does not end in a space or
  a tab, the code text and the comment text that the splitter yields, put together, are
  the line text.
\<close>

theorem split_roundtrip:
  assumes "\<not> has_escaped_delim data" and "\<not> endswith_blank data"
    and "AsteriskCommentReader_step (wh, data) = (ds, (wh', code, comment))"
  shows "code @ comment = data"
  using assms
  by (auto simp: AsteriskCommentReader_step_def comment_split_def Let_def
      split: if_splits prod.splits
      dest: simple_comment_split_concat escape_comment_split_concat)

theorem split_roundtrip_witness:
  "\<not> has_escaped_delim (ascii ''a'' @ [BACKSLASH] @ ascii ''b ; c'')
   \<and> \<not> endswith_blank (ascii ''a'' @ [BACKSLASH] @ ascii ''b ; c'')
   \<and> AsteriskCommentReader_step (w0, ascii ''a'' @ [BACKSLASH] @ ascii ''b ; c'')
       = ([], (w0, ascii ''a'' @ [BACKSLASH] @ ascii ''b'', ascii '' ; c''))
   \<and> (ascii ''a'' @ [BACKSLASH] @ ascii ''b'') @ ascii '' ; c''
       = ascii ''a'' @ [BACKSLASH] @ ascii ''b ; c''"
proof -
  let ?d = "ascii ''a'' @ [BACKSLASH] @ ascii ''b ; c''"
  have h1: "\<not> has_escaped_delim ?d"
    by (simp add: ascii_def)
  have h2: "\<not> endswith_blank ?d"
    by (simp add: ascii_def endswith_blank_def is_blank_def)
  have h3: "AsteriskCommentReader_step (w0, ?d)
       = ([], (w0, ascii ''a'' @ [BACKSLASH] @ ascii ''b'', ascii '' ; c''))"
    by (simp add: AsteriskCommentReader_step_def comment_split_def escape_comment_split_def
      escape_scan.simps ascii_def endswith_blank_def is_blank_def Let_def)
  from split_roundtrip [OF h1 h2 h3] h1 h2 h3 show ?thesis by simp
qed

text \<open>
  Claim C7. The line \<open>foo\; bar; baz\<close> is split into the code \<open>foo; bar\<close> and the comment
  \<open>; baz\<close>, and no diagnostic is emitted: the escaped delimiter stays in the code as a
  single \<open>;\<close>, and the first delimiter that is not escaped starts the comment.
\<close>

theorem split_escaped_example:
  "AsteriskCommentReader_step (wh, ascii ''foo'' @ [BACKSLASH] @ ascii ''; bar; baz'')
     = ([], (wh, ascii ''foo; bar'', ascii ''; baz''))"
  by (simp add: AsteriskCommentReader_step_def comment_split_def escape_comment_split_def
      escape_scan.simps ascii_def endswith_blank_def is_blank_def Let_def)

text \<open>
  Claim C10. \<open>__iter__\<close> strips the trailing blanks of a line text before it chooses
  between the two paths. For every line text without a backslash, on the text so
  stripped \<open>simple_comment_split\<close> gives the same code and comment as the scanning loop
  with the whitespace move after it, the blanks before the first \<open>;\<close> going to the comment
  in both; so the code and comment that the splitter yields for the line are those of the
  slow path. Where the line text has no trailing blank, the two agree on the text itself.
\<close>

theorem simple_split_eq_escape_split:
  assumes "BACKSLASH \<notin> set data"
  shows "(\<not> endswith_blank data \<longrightarrow> simple_comment_split data = escape_comment_split data)
     \<and> simple_comment_split (rstrip_blank data) = escape_comment_split (rstrip_blank data)
     \<and> snd (snd (AsteriskCommentReader_step (wh, data)))
         = escape_comment_split (rstrip_blank data)"
proof -
  have eq: "simple_comment_split x = escape_comment_split x"
    if nb: "BACKSLASH \<notin> set x" and ne: "\<not> endswith_blank x" for x
  proof (cases "index x SEMI")
    case None
    with nb ne show ?thesis
      by (simp add: simple_comment_split_def escape_comment_split_def
          escape_scan_plain no_backslash_no_escaped skip_blank_back_full)
  next
    case (Some i)
    then have "i < length x" by (rule index_Some_less)
    with Some nb show ?thesis
      by (simp add: simple_comment_split_def escape_comment_split_def Let_def
          escape_scan_plain no_backslash_no_escaped skip_blank_back_take
          skip_blank_back_le drop_take_drop min_absorb2 min_absorb1)
  qed
  obtain suf where "data = rstrip_blank data @ suf"
    using rstrip_blank_prefix by blast
  then have "set (rstrip_blank data) \<subseteq> set data"
    by (metis Un_upper1 set_append)
  with assms have nb: "BACKSLASH \<notin> set (rstrip_blank data)" by auto
  have stripped: "simple_comment_split (rstrip_blank data) = escape_comment_split (rstrip_blank data)"
    by (rule eq [OF nb rstrip_blank_not_blank])
  have "snd (snd (AsteriskCommentReader_step (wh, data))) = comment_split (rstrip_blank data)"
    by (simp add: AsteriskCommentReader_step_def rstrip_blank_id split_beta)
  also have "\<dots> = simple_comment_split (rstrip_blank data)"
    using nb by (simp add: comment_split_def)
  finally have "snd (snd (AsteriskCommentReader_step (wh, data)))
      = escape_comment_split (rstrip_blank data)"
    using stripped by simp
  with eq [OF assms] stripped show ?thesis by simp
qed

theorem simple_split_eq_escape_split_witness:
  "BACKSLASH \<notin> set (ascii ''a ; b '')
   \<and> rstrip_blank (ascii ''a ; b '') = ascii ''a ; b''
   \<and> simple_comment_split (ascii ''a ; b'') = escape_comment_split (ascii ''a ; b'')
   \<and> snd (snd (AsteriskCommentReader_step (w0, ascii ''a ; b ''))) = (ascii ''a'', ascii '' ; b'')
   \<and> escape_comment_split (ascii ''a ; b'') = (ascii ''a'', ascii '' ; b'')"
proof -
  have h1: "BACKSLASH \<notin> set (ascii ''a ; b '')"
    by (simp add: ascii_def)
  have h2: "rstrip_blank (ascii ''a ; b '') = ascii ''a ; b''"
    by (simp add: ascii_def rstrip_blank_def is_blank_def)
  have h3: "simple_comment_split (ascii ''a ; b'') = (ascii ''a'', ascii '' ; b'')"
    by (simp add: simple_comment_split_def ascii_def is_blank_def Let_def)
  from simple_split_eq_escape_split [OF h1, of w0] h1 h2 h3 show ?thesis by simp
qed

section \<open>Properties of the decoder\<close>

text \<open>
  A line that is not UTF-8 gets exactly one \<open>E_FILE_UTF8_BAD\<close>, at its position, whether
  the second \<open>decode\<close> succeeds or raises; a line that is UTF-8 gets none.
\<close>

lemma EncodingReader_diag:
  "fst (EncodingReader_step (wh, data)) =
     (if utf8_decode data = None then [E_FILE_UTF8_BAD wh] else [])"
  by (simp add: EncodingReader_step_def split: option.splits)

lemma EncodingReader_raises_iff:
  "snd (EncodingReader_step (wh, data)) = Inl UnicodeDecodeError
     \<longleftrightarrow> utf8_decode data = None \<and> cp1252_decode data = None"
  by (simp add: EncodingReader_step_def split: option.splits)

text \<open>
  Claim C1. The claim says that the fallback decoding succeeds on every byte. The line
  made of the byte 0x81 and a line feed is not UTF-8, so \<open>E_FILE_UTF8_BAD\<close> is emitted;
  the table of cp1252 leaves 0x81 undefined, and the second \<open>decode\<close> raises.
\<close>

theorem EncodingReader_fallback_raises:
  "EncodingReader_step (wh, [0x81, 0x0A]) = ([E_FILE_UTF8_BAD wh], Inl UnicodeDecodeError)"
  by (simp add: EncodingReader_step_def utf8_first_def cp1252_char_def cp1252_high_def)

section \<open>Properties of the line-ending tracker\<close>

lemma pop_fileinfo_known:
  "\<forall>e \<in> set es. known e \<Longrightarrow>
   pop_fileinfo es st =
     (concat (map eof_diags (takeWhile (\<lambda>e. Some (fi_fn e) \<noteq> st) es)),
      Inr (dropWhile (\<lambda>e. Some (fi_fn e) \<noteq> st) es))"
proof (induction es)
  case Nil
  then show ?case by simp
next
  case (Cons e es)
  then obtain d l where "fi_is_dos e = Some d" "fi_latest_has_lf e = Some l"
    by (auto simp: known_def)
  with Cons show ?case
    by (auto simp: eof_diags_def)
qed

lemma check_line_eq:
  "check_line e (Some d) wh data =
     (line_diags d wh data, e\<lparr>fi_latest_has_lf := Some (has_lf data), fi_last_where := wh\<rparr>,
      Some d, strip_eol data)"
  by (simp add: check_line_def line_diags_def strip_eol_def has_crlf_def has_lf_def Let_def)

lemma check_line_new:
  "check_line e None wh data =
     (line_diags (has_crlf data \<or> \<not> has_lf data) wh data,
      e\<lparr>fi_latest_has_lf := Some (has_lf data), fi_last_where := wh,
        fi_is_dos := Some (has_crlf data \<or> \<not> has_lf data)\<rparr>,
      Some (has_crlf data \<or> \<not> has_lf data), strip_eol data)"
  by (simp add: check_line_def line_diags_def strip_eol_def has_crlf_def has_lf_def Let_def)

lemma step_same_file:
  assumes "fileinfo s = e # rest" "fi_fn e = filename wh" "is_dos s = Some d"
  shows "FileformatReader_step s (wh, data) =
     (line_diags d wh data,
      Inr (\<lparr>fileinfo = e\<lparr>fi_latest_has_lf := Some (has_lf data), fi_last_where := wh\<rparr> # rest,
            is_dos = Some d\<rparr>, (wh, strip_eol data)))"
  using assms
  by (simp add: FileformatReader_step_def select_fileinfo_def check_line_eq)

lemma step_new_file:
  assumes "filename wh \<notin> fi_fn ` set (fileinfo s)"
  shows "FileformatReader_step s (wh, data) =
     (line_diags (has_crlf data \<or> \<not> has_lf data) wh data,
      Inr (\<lparr>fileinfo = \<lparr>fi_fn = filename wh, fi_is_dos = Some (has_crlf data \<or> \<not> has_lf data),
                        fi_latest_has_lf = Some (has_lf data), fi_last_where = wh\<rparr> # fileinfo s,
            is_dos = Some (has_crlf data \<or> \<not> has_lf data)\<rparr>, (wh, strip_eol data)))"
proof -
  from assms have "fileinfo s = [] \<or> fi_fn (hd (fileinfo s)) \<noteq> filename wh"
    by (cases "fileinfo s") auto
  with assms show ?thesis
    by (simp add: FileformatReader_step_def select_fileinfo_def check_line_new)
qed

lemma step_return:
  assumes "fileinfo s = c # p # rest" "fi_fn c \<noteq> filename wh" "fi_fn p = filename wh"
    "known c" "fi_is_dos p = Some d"
  shows "FileformatReader_step s (wh, data) =
     (eof_diags c @ line_diags d (fi_last_where p) data,
      Inr (\<lparr>fileinfo = p\<lparr>fi_latest_has_lf := Some (has_lf data)\<rparr> # rest,
            is_dos = Some d\<rparr>, (fi_last_where p, strip_eol data)))"
proof -
  from assms(4) obtain cd cl where c: "fi_is_dos c = Some cd" "fi_latest_has_lf c = Some cl"
    by (auto simp: known_def)
  have "pop_fileinfo (c # p # rest) (Some (filename wh)) = (eof_diags c, Inr (p # rest))"
    using assms c by (simp add: eof_diags_def)
  with assms show ?thesis
    by (simp add: FileformatReader_step_def select_fileinfo_def check_line_eq)
qed


lemma endswith_iff: "endswith data suf \<longleftrightarrow> (\<exists>pre. data = pre @ suf)"
proof
  assume "endswith data suf"
  then have "suf = drop (length data - length suf) data"
    by (simp add: endswith_def)
  then have "data = take (length data - length suf) data @ suf"
    by (metis append_take_drop_id)
  then show "\<exists>pre. data = pre @ suf" ..
next
  assume "\<exists>pre. data = pre @ suf"
  then show "endswith data suf"
    by (auto simp: endswith_def)
qed

lemma has_crlf_has_lf: "has_crlf data \<Longrightarrow> has_lf data"
proof -
  assume "has_crlf data"
  then obtain pre where "data = pre @ [CR, LF]"
    by (auto simp: has_crlf_def endswith_iff)
  then have "data = (pre @ [CR]) @ [LF]" by simp
  then show ?thesis unfolding has_lf_def endswith_iff by blast
qed

lemma loop_append:
  "FileformatReader_loop s (xs @ ys) =
     (case FileformatReader_loop s xs of
        (ds, outs, Inl e) \<Rightarrow> (ds, outs, Inl e)
      | (ds, outs, Inr s') \<Rightarrow>
          (case FileformatReader_loop s' ys of
             (ds', outs', r) \<Rightarrow> (ds @ ds', outs @ outs', r)))"
  by (induction xs arbitrary: s) (auto split: prod.splits sum.splits)

lemma loop_same_file:
  assumes "fileinfo s = e # rest" "fi_fn e = f" "is_dos s = Some d"
    "\<forall>(w, x) \<in> set items. filename w = f"
  shows "FileformatReader_loop s items =
     (concat (map (\<lambda>(w, x). line_diags d w x) items),
      map (\<lambda>(w, x). (w, strip_eol x)) items,
      Inr (if items = [] then s
           else \<lparr>fileinfo = e\<lparr>fi_latest_has_lf := Some (has_lf (snd (last items))),
                              fi_last_where := fst (last items)\<rparr> # rest,
                  is_dos = Some d\<rparr>))"
  using assms
proof (induction items arbitrary: s e)
  case Nil
  then show ?case by simp
next
  case (Cons it items)
  obtain w x where it: "it = (w, x)" by (cases it)
  with Cons.prems have w: "filename w = f" by simp
  let ?e' = "e\<lparr>fi_latest_has_lf := Some (has_lf x), fi_last_where := w\<rparr>"
  let ?s' = "\<lparr>fileinfo = ?e' # rest, is_dos = Some d\<rparr>"
  have st: "FileformatReader_step s (w, x) = (line_diags d w x, Inr (?s', (w, strip_eol x)))"
    using Cons.prems w by (simp add: step_same_file)
  have ih: "FileformatReader_loop ?s' items =
     (concat (map (\<lambda>(w, x). line_diags d w x) items),
      map (\<lambda>(w, x). (w, strip_eol x)) items,
      Inr (if items = [] then ?s'
           else \<lparr>fileinfo = ?e'\<lparr>fi_latest_has_lf := Some (has_lf (snd (last items))),
                              fi_last_where := fst (last items)\<rparr> # rest,
                  is_dos = Some d\<rparr>))"
    using Cons.prems by (intro Cons.IH) auto
  show ?case
    by (simp add: it st ih)
qed

text \<open>
  Claim C2, as stated: a single file whose lines all end in CRLF gives no format
  diagnostic. The file with the one line \<open>a\<close> CR LF gets \<open>W_FILE_DOS_EOFCRLF\<close> when
  its entry is popped at the end.
\<close>

theorem dos_file_final_crlf_warns:
  "FileformatReader_iter [(a1, ascii ''a'' @ [CR, LF])]
     = ([W_FILE_DOS_EOFCRLF a1], [(a1, ascii ''a'')], None)"
  by (simp add: FileformatReader_iter_def FileformatReader_step_def select_fileinfo_def
      check_line_def FileformatReader_finish_def ff_init_def endswith_def ascii_def Let_def)

text \<open>
  Claim C2, amended. For a single file whose lines all end in CRLF, the last one too, the
  tracker emits no diagnostic while it reads the lines, and exactly one at the end:
  \<open>W_FILE_DOS_EOFCRLF\<close> at the position of the last line (none for a file without lines).
  Every line is yielded with its own position, without its two terminator characters.
\<close>

theorem dos_file_diags:
  assumes "\<forall>(w, x) \<in> set items. filename w = f \<and> has_crlf x"
  shows "FileformatReader_iter items =
     (if items = [] then [] else [W_FILE_DOS_EOFCRLF (fst (last items))],
      map (\<lambda>(w, x). (w, take (length x - 2) x)) items, None)"
proof (cases items)
  case Nil
  then show ?thesis
    by (simp add: FileformatReader_iter_def FileformatReader_finish_def ff_init_def)
next
  case (Cons it rest)
  obtain w x where it: "it = (w, x)" by (cases it)
  with Cons assms have wx: "filename w = f" "has_crlf x" "has_lf x"
    by (auto dest: has_crlf_has_lf)
  let ?e = "\<lparr>fi_fn = f, fi_is_dos = Some True, fi_latest_has_lf = Some True, fi_last_where = w\<rparr>"
  let ?s = "\<lparr>fileinfo = [?e], is_dos = Some True\<rparr>"
  have st: "FileformatReader_step ff_init (w, x) = ([], Inr (?s, (w, strip_eol x)))"
    using wx by (simp add: step_new_file ff_init_def line_diags_def)
  have all: "\<forall>(w, x) \<in> set rest. filename w = f"
    using assms Cons by auto
  have nodiag: "concat (map (\<lambda>(w, x). line_diags True w x) rest) = []"
    using assms Cons by (auto simp: line_diags_def)
  have strip: "map (\<lambda>(w, x). (w, strip_eol x)) items = map (\<lambda>(w, x). (w, take (length x - 2) x)) items"
    using assms by (auto simp: strip_eol_def)
  have lastlf: "has_lf (snd (last rest))" if "rest \<noteq> []"
  proof -
    from that have "last rest \<in> set rest" by simp
    with assms Cons have "has_crlf (snd (last rest))"
      by (cases "last rest") auto
    then show ?thesis by (rule has_crlf_has_lf)
  qed
  have lp: "FileformatReader_loop ?s rest =
     ([], map (\<lambda>(w, x). (w, strip_eol x)) rest,
      Inr (if rest = [] then ?s
           else \<lparr>fileinfo = [?e\<lparr>fi_latest_has_lf := Some (has_lf (snd (last rest))),
                              fi_last_where := fst (last rest)\<rparr>],
                  is_dos = Some True\<rparr>))"
    using loop_same_file [of ?s ?e "[]" f True rest] all nodiag by simp
  show ?thesis
    using lastlf strip
    by (simp add: FileformatReader_iter_def Cons it st lp FileformatReader_finish_def eof_diags_def)
qed

theorem dos_file_diags_witness:
  "FileformatReader_iter [(a1, ascii ''a'' @ [CR, LF]), (a2, ascii ''b'' @ [CR, LF])]
     = ([W_FILE_DOS_EOFCRLF a2], [(a1, ascii ''a''), (a2, ascii ''b'')], None)"
proof -
  let ?items = "[(a1, ascii ''a'' @ [CR, LF]), (a2, ascii ''b'' @ [CR, LF])]"
  have h: "\<forall>(w, x) \<in> set ?items. filename w = ''a.conf'' \<and> has_crlf x"
    by (simp add: a1_def a2_def has_crlf_def endswith_def ascii_def)
  from dos_file_diags [OF h] show ?thesis
    by (simp add: ascii_def)
qed

lemma find_dropWhile_name:
  "f \<in> fi_fn ` set es \<Longrightarrow>
   \<exists>e rest. dropWhile (\<lambda>e. Some (fi_fn e) \<noteq> Some f) es = e # rest \<and> fi_fn e = f
      \<and> find (\<lambda>e. fi_fn e = f) es = Some e \<and> set (e # rest) \<subseteq> set es"
proof (induction es)
  case Nil
  then show ?case by simp
next
  case (Cons a es)
  show ?case
  proof (cases "fi_fn a = f")
    case True
    then show ?thesis by auto
  next
    case False
    with Cons.prems have "f \<in> fi_fn ` set es" by auto
    from Cons.IH [OF this] False show ?thesis by auto
  qed
qed

lemma step_return_any:
  assumes "ff_inv s" "fileinfo s \<noteq> []" "fi_fn (hd (fileinfo s)) \<noteq> filename wh"
    "filename wh \<in> fi_fn ` set (fileinfo s)"
  shows "\<exists>e rest d. find (\<lambda>e. fi_fn e = filename wh) (fileinfo s) = Some e
      \<and> fi_fn e = filename wh \<and> fi_is_dos e = Some d \<and> set (e # rest) \<subseteq> set (fileinfo s)
      \<and> FileformatReader_step s (wh, data) =
         (concat (map eof_diags (takeWhile (\<lambda>e. Some (fi_fn e) \<noteq> Some (filename wh)) (fileinfo s)))
            @ line_diags d (fi_last_where e) data,
          Inr (\<lparr>fileinfo = e\<lparr>fi_latest_has_lf := Some (has_lf data)\<rparr> # rest, is_dos = Some d\<rparr>,
               (fi_last_where e, strip_eol data)))"
proof -
  from find_dropWhile_name [OF assms(4)] obtain e rest where
    e: "dropWhile (\<lambda>e. Some (fi_fn e) \<noteq> Some (filename wh)) (fileinfo s) = e # rest"
       "fi_fn e = filename wh" "find (\<lambda>e. fi_fn e = filename wh) (fileinfo s) = Some e"
       "set (e # rest) \<subseteq> set (fileinfo s)"
    by blast
  from assms(1) have kn: "\<forall>e \<in> set (fileinfo s). known e"
    by (simp add: ff_inv_def)
  with e(4) have "known e" by auto
  then obtain d where d: "fi_is_dos e = Some d" by (auto simp: known_def)
  have "FileformatReader_step s (wh, data) =
         (concat (map eof_diags (takeWhile (\<lambda>e. Some (fi_fn e) \<noteq> Some (filename wh)) (fileinfo s)))
            @ line_diags d (fi_last_where e) data,
          Inr (\<lparr>fileinfo = e\<lparr>fi_latest_has_lf := Some (has_lf data)\<rparr> # rest, is_dos = Some d\<rparr>,
               (fi_last_where e, strip_eol data)))"
    using assms(2,3,4) e(1) d
    by (simp add: FileformatReader_step_def select_fileinfo_def pop_fileinfo_known [OF kn]
        check_line_eq)
  with e d show ?thesis by blast
qed

lemma ff_inv_init: "ff_inv ff_init"
  by (simp add: ff_inv_def ff_init_def)

lemma step_total:
  assumes "ff_inv s"
  shows "\<exists>ds s' wh'. FileformatReader_step s (wh, data) = (ds, Inr (s', (wh', strip_eol data)))
     \<and> ff_inv s'"
proof (cases "filename wh \<in> fi_fn ` set (fileinfo s)")
  case False
  from step_new_file [OF False, of data] assms show ?thesis
    by (auto simp: ff_inv_def known_def)
next
  case True
  then obtain e0 rest0 where fi: "fileinfo s = e0 # rest0"
    by (cases "fileinfo s") auto
  show ?thesis
  proof (cases "fi_fn e0 = filename wh")
    case same: True
    from assms fi obtain d where d: "is_dos s = Some d" and d0: "fi_is_dos e0 = Some d"
      by (auto simp: ff_inv_def known_def)
    have "ff_inv \<lparr>fileinfo = e0\<lparr>fi_latest_has_lf := Some (has_lf data), fi_last_where := wh\<rparr> # rest0,
            is_dos = Some d\<rparr>"
      using assms fi d0 by (simp add: ff_inv_def known_def)
    with step_same_file [OF fi same d, of data] show ?thesis
      by blast
  next
    case False
    with fi have "fileinfo s \<noteq> []" "fi_fn (hd (fileinfo s)) \<noteq> filename wh" by auto
    from step_return_any [OF assms this True, of data] obtain e rest d where
      "fi_is_dos e = Some d" "set (e # rest) \<subseteq> set (fileinfo s)"
      "FileformatReader_step s (wh, data) =
         (concat (map eof_diags (takeWhile (\<lambda>e. Some (fi_fn e) \<noteq> Some (filename wh)) (fileinfo s)))
            @ line_diags d (fi_last_where e) data,
          Inr (\<lparr>fileinfo = e\<lparr>fi_latest_has_lf := Some (has_lf data)\<rparr> # rest, is_dos = Some d\<rparr>,
               (fi_last_where e, strip_eol data)))"
      by blast
    with assms show ?thesis
      by (auto simp: ff_inv_def known_def)
  qed
qed

lemma loop_total:
  assumes "ff_inv s"
  shows "\<exists>ds outs s'. FileformatReader_loop s items = (ds, outs, Inr s') \<and> ff_inv s'"
  using assms
proof (induction items arbitrary: s)
  case Nil
  then show ?case by simp
next
  case (Cons it items)
  obtain wh data where it: "it = (wh, data)" by (cases it)
  from step_total [OF Cons.prems, of wh data] obtain ds s1 wh' where
    st: "FileformatReader_step s (wh, data) = (ds, Inr (s1, (wh', strip_eol data)))" "ff_inv s1"
    by blast
  from Cons.IH [OF st(2)] obtain ds' outs s' where
    "FileformatReader_loop s1 items = (ds', outs, Inr s')" "ff_inv s'"
    by blast
  with st it show ?case by simp
qed

lemmas ex_defs = p1_def p2_def p2crlf_def c1_def c2_def c2crlf_def a1_def a2_def
lemmas ff_defs = FileformatReader_iter_def FileformatReader_step_def select_fileinfo_def
      check_line_def FileformatReader_finish_def ff_init_def endswith_def ascii_def Let_def


text \<open>
  Claim C8. After any lines, the tracker handles the next line without raising. If no
  entry has the line's file name, the convention of the file is unknown and this line sets
  it: DOS if the line ends in CRLF or has no terminator, Unix if it ends in a bare LF. If an
  entry has the name, its convention is kept. Under the convention in force, a line of a
  DOS file that ends in a bare LF emits \<open>W_FILE_DOS_BARELF\<close> and a line of a Unix file that
  ends in CRLF emits \<open>W_FILE_UNIX_CRLF\<close>.
\<close>

theorem line_classification:
  assumes "FileformatReader_loop ff_init items = (ds0, outs0, Inr s)"
    and "FileformatReader_step s (wh, data) = (ds, r)"
  shows "\<exists>s' wh'. r = Inr (s', (wh', strip_eol data))
     \<and> fileinfo s' \<noteq> [] \<and> fi_fn (hd (fileinfo s')) = filename wh
     \<and> (filename wh \<notin> fi_fn ` set (fileinfo s)
          \<longrightarrow> fi_is_dos (hd (fileinfo s')) = Some (has_crlf data \<or> \<not> has_lf data))
     \<and> (\<forall>e0. find (\<lambda>e. fi_fn e = filename wh) (fileinfo s) = Some e0
          \<longrightarrow> fi_is_dos e0 \<noteq> None \<and> fi_is_dos (hd (fileinfo s')) = fi_is_dos e0)
     \<and> (fi_is_dos (hd (fileinfo s')) = Some True \<and> has_lf data \<and> \<not> has_crlf data
          \<longrightarrow> W_FILE_DOS_BARELF wh' \<in> set ds)
     \<and> (fi_is_dos (hd (fileinfo s')) = Some False \<and> has_crlf data
          \<longrightarrow> W_FILE_UNIX_CRLF wh' \<in> set ds)"
proof -
  from loop_total [OF ff_inv_init, of items] assms(1) have inv: "ff_inv s"
    by auto
  show ?thesis
  proof (cases "filename wh \<in> fi_fn ` set (fileinfo s)")
    case False
    then have "find (\<lambda>e. fi_fn e = filename wh) (fileinfo s) = None"
      by (force simp: find_None_iff)
    with step_new_file [OF False, of data] False assms(2) show ?thesis
      by (auto simp: line_diags_def)
  next
    case True
    then obtain e0 rest0 where fi: "fileinfo s = e0 # rest0"
      by (cases "fileinfo s") auto
    show ?thesis
    proof (cases "fi_fn e0 = filename wh")
      case same: True
      from inv fi obtain d where d: "is_dos s = Some d" and d0: "fi_is_dos e0 = Some d"
        by (auto simp: ff_inv_def known_def)
      from same fi have "find (\<lambda>e. fi_fn e = filename wh) (fileinfo s) = Some e0"
        by simp
      with step_same_file [OF fi same d, of data] d0 same True assms(2) show ?thesis
        by (auto simp: line_diags_def)
    next
      case False
      with fi have ne: "fileinfo s \<noteq> []" "fi_fn (hd (fileinfo s)) \<noteq> filename wh" by auto
      from step_return_any [OF inv ne True, of data] obtain e rest d where
        "find (\<lambda>e. fi_fn e = filename wh) (fileinfo s) = Some e"
        "fi_fn e = filename wh" "fi_is_dos e = Some d"
        "FileformatReader_step s (wh, data) =
         (concat (map eof_diags (takeWhile (\<lambda>e. Some (fi_fn e) \<noteq> Some (filename wh)) (fileinfo s)))
            @ line_diags d (fi_last_where e) data,
          Inr (\<lparr>fileinfo = e\<lparr>fi_latest_has_lf := Some (has_lf data)\<rparr> # rest, is_dos = Some d\<rparr>,
               (fi_last_where e, strip_eol data)))"
        by blast
      with True assms(2) show ?thesis
        by (auto simp: line_diags_def)
    qed
  qed
qed


theorem line_classification_witness:
  "FileformatReader_loop ff_init [(a1, ascii ''a'' @ [CR, LF])] = ([], [(a1, ascii ''a'')], Inr s_dos)
   \<and> FileformatReader_step s_dos (a2, ascii ''b'' @ [LF])
       = ([W_FILE_DOS_BARELF a2], Inr (s_dos', (a2, ascii ''b'')))
   \<and> has_lf (ascii ''b'' @ [LF]) \<and> \<not> has_crlf (ascii ''b'' @ [LF])
   \<and> fi_is_dos (hd (fileinfo s_dos')) = Some True
   \<and> W_FILE_DOS_BARELF a2 \<in> set [W_FILE_DOS_BARELF a2]"
proof -
  have h1: "FileformatReader_loop ff_init [(a1, ascii ''a'' @ [CR, LF])] = ([], [(a1, ascii ''a'')], Inr s_dos)"
    by (simp add: ff_defs ex_defs s_dos_def)
  have h2: "FileformatReader_step s_dos (a2, ascii ''b'' @ [LF])
       = ([W_FILE_DOS_BARELF a2], Inr (s_dos', (a2, ascii ''b'')))"
    by (simp add: ff_defs ex_defs s_dos_def s_dos'_def)
  have lf: "has_lf (ascii ''b'' @ [LF])" "\<not> has_crlf (ascii ''b'' @ [LF])"
    by (simp_all add: has_lf_def has_crlf_def endswith_def ascii_def)
  have f: "find (\<lambda>e. fi_fn e = filename a2) (fileinfo s_dos) = Some (hd (fileinfo s_dos))"
    "fi_is_dos (hd (fileinfo s_dos)) = Some True"
    by (simp_all add: s_dos_def a2_def)
  from line_classification [OF h1 h2] f lf have "fi_is_dos (hd (fileinfo s_dos')) = Some True"
    and "W_FILE_DOS_BARELF a2 \<in> set [W_FILE_DOS_BARELF a2]"
    by auto
  with h1 h2 lf show ?thesis by simp
qed


lemma pop_fileinfo_find:
  "pop_fileinfo es (Some f) = (ds, Inr (e # rest)) \<Longrightarrow> find (\<lambda>e. fi_fn e = f) es = Some e"
proof (induction es arbitrary: ds)
  case Nil
  then show ?case by simp
next
  case (Cons a es)
  show ?case
  proof (cases "fi_fn a = f")
    case True
    with Cons.prems show ?thesis by simp
  next
    case False
    with Cons.prems obtain ds' where "pop_fileinfo es (Some f) = (ds', Inr (e # rest))"
      by (auto split: option.splits prod.splits)
    from Cons.IH [OF this] False show ?thesis by simp
  qed
qed

lemma FileformatReader_step_where:
  assumes "FileformatReader_step s (wh, data) = (ds, Inr (s', (wh', data')))"
  shows "if fileinfo s \<noteq> [] \<and> fi_fn (hd (fileinfo s)) \<noteq> filename wh
            \<and> filename wh \<in> fi_fn ` set (fileinfo s)
         then \<exists>e. find (\<lambda>e. fi_fn e = filename wh) (fileinfo s) = Some e \<and> wh' = fi_last_where e
         else wh' = wh"
proof (cases "fileinfo s = [] \<or> fi_fn (hd (fileinfo s)) \<noteq> filename wh")
  case False
  with assms show ?thesis
    by (auto simp: FileformatReader_step_def select_fileinfo_def check_line_def Let_def
        split: list.splits prod.splits)
next
  case sel: True
  show ?thesis
  proof (cases "filename wh \<in> fi_fn ` set (fileinfo s)")
    case False
    with sel assms show ?thesis
      by (auto simp: FileformatReader_step_def select_fileinfo_def check_line_def Let_def
          split: prod.splits)
  next
    case True
    with sel have ne: "fileinfo s \<noteq> []" "fi_fn (hd (fileinfo s)) \<noteq> filename wh" by auto
    from sel True assms obtain dsp e rest where
      p: "pop_fileinfo (fileinfo s) (Some (filename wh)) = (dsp, Inr (e # rest))"
      and w: "wh' = fi_last_where e"
      by (auto simp: FileformatReader_step_def select_fileinfo_def check_line_def Let_def
          split: prod.splits sum.splits list.splits)
    from pop_fileinfo_find [OF p] w ne True show ?thesis by simp
  qed
qed

text \<open>
  Claim C9. The position that a line record carries is the position \<open>BinFileReader\<close> gave
  to the line, except when the line returns from an include (the top entry is of another
  file and an entry of the line's file is below it): then it is the position stored last in
  the entry of the line's file.
\<close>

theorem position_carried:
  assumes "FileReader_step s (wh, raw) = (ds, Inr (s', (wh', code, comment)))"
  shows "if fileinfo s \<noteq> [] \<and> fi_fn (hd (fileinfo s)) \<noteq> filename wh
            \<and> filename wh \<in> fi_fn ` set (fileinfo s)
         then \<exists>e. find (\<lambda>e. fi_fn e = filename wh) (fileinfo s) = Some e \<and> wh' = fi_last_where e
         else wh' = wh"
proof -
  from assms obtain ds1 t where enc: "EncodingReader_step (wh, raw) = (ds1, Inr (wh, t))"
    by (auto simp: FileReader_step_def EncodingReader_step_def split: option.splits)
  have ctl: "snd (NoCtrlReader_step (wh, t)) = (wh, t)"
    by (simp add: NoCtrlReader_step_def Let_def)
  from assms enc ctl obtain ds3 wh3 data3 where
    ff: "FileformatReader_step s (wh, t) = (ds3, Inr (s', (wh3, data3)))"
    and cm: "snd (AsteriskCommentReader_step (wh3, data3)) = (wh', code, comment)"
    by (auto simp: FileReader_step_def split: prod.splits sum.splits)
  from cm have "wh' = wh3"
    by (auto simp: AsteriskCommentReader_step_def Let_def split: prod.splits if_splits)
  with FileformatReader_step_where [OF ff] show ?thesis by simp
qed

lemmas fr_defs = FileReader_step_def EncodingReader_step_def NoCtrlReader_step_def
  AsteriskCommentReader_step_def comment_split_def simple_comment_split_def
  utf8_first_def illegal_def endswith_blank_def is_blank_def


theorem position_carried_witness:
  "FileReader_loop ff_init [(p1, [0x61, 0x0A]), (c1, [0x78, 0x0D, 0x0A])]
     = ([], [(p1, ascii ''a'', []), (c1, ascii ''x'', [])], Inr s_incl)
   \<and> FileReader_step s_incl (p2, [0x62, 0x0A])
     = ([W_FILE_DOS_EOFCRLF c1],
        Inr (\<lparr>fileinfo = [\<lparr>fi_fn = ''p.conf'', fi_is_dos = Some False,
                          fi_latest_has_lf = Some True, fi_last_where = p1\<rparr>],
             is_dos = Some False\<rparr>, (p1, ascii ''b'', [])))
   \<and> (if fileinfo s_incl \<noteq> [] \<and> fi_fn (hd (fileinfo s_incl)) \<noteq> filename p2
            \<and> filename p2 \<in> fi_fn ` set (fileinfo s_incl)
       then \<exists>e. find (\<lambda>e. fi_fn e = filename p2) (fileinfo s_incl) = Some e \<and> p1 = fi_last_where e
       else p1 = p2)"
proof -
  have h0: "FileReader_loop ff_init [(p1, [0x61, 0x0A]), (c1, [0x78, 0x0D, 0x0A])]
     = ([], [(p1, ascii ''a'', []), (c1, ascii ''x'', [])], Inr s_incl)"
    by (simp add: fr_defs ff_defs ex_defs s_incl_def)
  have h: "FileReader_step s_incl (p2, [0x62, 0x0A])
     = ([W_FILE_DOS_EOFCRLF c1],
        Inr (\<lparr>fileinfo = [\<lparr>fi_fn = ''p.conf'', fi_is_dos = Some False,
                          fi_latest_has_lf = Some True, fi_last_where = p1\<rparr>],
             is_dos = Some False\<rparr>, (p1, ascii ''b'', [])))"
    by (simp add: fr_defs ff_defs ex_defs s_incl_def)
  from position_carried [OF h] h0 h show ?thesis by blast
qed

text \<open>
  Claim C5, as stated: a child with CRLF lines whose last line lacks the terminator gets
  exactly one diagnostic when it is popped. It gets none: the entry is DOS and its last
  line had no LF.
\<close>

theorem crlf_child_open_end_silent:
  "FileformatReader_iter
     [(p1, ascii ''a'' @ [LF]), (c1, ascii ''x'' @ [CR, LF]), (c2, ascii ''y''), (p2, ascii ''b'' @ [LF])]
   = ([], [(p1, ascii ''a''), (c1, ascii ''x''), (c2, ascii ''y''), (p1, ascii ''b'')], None)"
  by (simp add: ff_defs ex_defs)

lemma loop_new_file:
  assumes "items \<noteq> []" "\<forall>(w, x) \<in> set items. filename w = f" "f \<notin> fi_fn ` set (fileinfo s)"
    and d: "d = (has_crlf (snd (hd items)) \<or> \<not> has_lf (snd (hd items)))"
  shows "FileformatReader_loop s items =
     (concat (map (\<lambda>(w, x). line_diags d w x) items),
      map (\<lambda>(w, x). (w, strip_eol x)) items,
      Inr \<lparr>fileinfo = \<lparr>fi_fn = f, fi_is_dos = Some d,
                         fi_latest_has_lf = Some (has_lf (snd (last items))),
                         fi_last_where = fst (last items)\<rparr> # fileinfo s,
           is_dos = Some d\<rparr>)"
proof -
  from assms(1) obtain w x rest where items: "items = (w, x) # rest"
    by (cases items) auto
  with assms(2) have w: "filename w = f" and rest: "\<forall>(w, x) \<in> set rest. filename w = f"
    by auto
  let ?e = "\<lparr>fi_fn = f, fi_is_dos = Some d, fi_latest_has_lf = Some (has_lf x), fi_last_where = w\<rparr>"
  let ?s = "\<lparr>fileinfo = ?e # fileinfo s, is_dos = Some d\<rparr>"
  have st: "FileformatReader_step s (w, x) = (line_diags d w x, Inr (?s, (w, strip_eol x)))"
    using step_new_file [of w s x] assms(3) w d items by simp
  have lp: "FileformatReader_loop ?s rest =
     (concat (map (\<lambda>(w, x). line_diags d w x) rest),
      map (\<lambda>(w, x). (w, strip_eol x)) rest,
      Inr (if rest = [] then ?s
           else \<lparr>fileinfo = ?e\<lparr>fi_latest_has_lf := Some (has_lf (snd (last rest))),
                              fi_last_where := fst (last rest)\<rparr> # fileinfo s,
                  is_dos = Some d\<rparr>))"
    using loop_same_file [of ?s ?e "fileinfo s" f d rest] rest by simp
  show ?thesis
    by (simp add: items st lp)
qed


lemma takeWhile_True: "takeWhile (\<lambda>_. True) xs = xs"
  by (induction xs) auto

lemma dropWhile_True: "dropWhile (\<lambda>_. True) xs = []"
  by (induction xs) auto

lemma finish_known:
  "\<forall>e \<in> set (fileinfo s). known e \<Longrightarrow>
   FileformatReader_finish s = (concat (map eof_diags (fileinfo s)), None)"
  by (simp add: FileformatReader_finish_def pop_fileinfo_known takeWhile_True)

text \<open>
  Claim C5, amended. A parent file whose first line ends in a bare LF includes a child
  whose lines end in CRLF, the last one in CRLF or without terminator; the lines \<open>post\<close> of
  the parent follow. The diagnostics are, in order: those of the parent's first lines under
  the Unix convention; none for the lines of the child; \<open>W_FILE_DOS_EOFCRLF\<close> at the
  child's last line exactly when that line ends in CRLF; those of the parent's later lines
  under the Unix convention; \<open>W_FILE_UNIX_NOLF\<close> for the parent if its last line has no LF.
\<close>

theorem include_crlf_child:
  assumes pre: "pre \<noteq> []" "\<forall>(w, x) \<in> set pre. filename w = p"
      "has_lf (snd (hd pre))" "\<not> has_crlf (snd (hd pre))"
    and child: "child \<noteq> []" "\<forall>(w, x) \<in> set child. filename w = c" "c \<noteq> p"
      "\<forall>(w, x) \<in> set (butlast child). has_crlf x"
      "has_crlf (snd (last child)) \<or> \<not> has_lf (snd (last child))"
    and post: "\<forall>(w, x) \<in> set post. filename w = p"
  shows "fst (FileformatReader_iter (pre @ child @ post)) =
     concat (map (\<lambda>(w, x). line_diags False w x) pre)
     @ (if has_crlf (snd (last child)) then [W_FILE_DOS_EOFCRLF (fst (last child))] else [])
     @ concat (map (\<lambda>(w, x). line_diags False w x) (rebound (fst (last pre)) post))
     @ (let (w, x) = last (pre @ rebound (fst (last pre)) post)
        in if has_lf x then [] else [W_FILE_UNIX_NOLF w])"
proof -
  let ?pe = "\<lparr>fi_fn = p, fi_is_dos = Some False,
              fi_latest_has_lf = Some (has_lf (snd (last pre))), fi_last_where = fst (last pre)\<rparr>"
  let ?s1 = "\<lparr>fileinfo = [?pe], is_dos = Some False\<rparr>"
  let ?ce = "\<lparr>fi_fn = c, fi_is_dos = Some True,
              fi_latest_has_lf = Some (has_lf (snd (last child))), fi_last_where = fst (last child)\<rparr>"
  let ?s2 = "\<lparr>fileinfo = [?ce, ?pe], is_dos = Some True\<rparr>"
  let ?dpre = "concat (map (\<lambda>(w, x). line_diags False w x) pre)"
  have l1: "FileformatReader_loop ff_init pre =
      (?dpre, map (\<lambda>(w, x). (w, strip_eol x)) pre, Inr ?s1)"
    using loop_new_file [of pre p ff_init False] pre by (simp add: ff_init_def)
  have hd_dos: "has_crlf (snd (hd child)) \<or> \<not> has_lf (snd (hd child))"
  proof (cases "butlast child = []")
    case True
    with child(1) have "hd child = last child"
      by (cases child) (auto split: if_splits)
    with child(5) show ?thesis by simp
  next
    case False
    then have "hd child \<in> set (butlast child)"
      by (cases child) (auto split: if_splits)
    with child(4) show ?thesis by (cases "hd child") auto
  qed
  have child_quiet: "line_diags True w x = []" if "(w, x) \<in> set child" for w x
  proof (cases "(w, x) \<in> set (butlast child)")
    case True
    with child(4) show ?thesis by (auto simp: line_diags_def)
  next
    case False
    with that child(1) have "(w, x) = last child"
      by (metis append_butlast_last_id set_ConsD set_append Un_iff list.set(1) empty_iff)
    then have "x = snd (last child)" by (metis snd_conv)
    with child(5) show ?thesis by (auto simp: line_diags_def dest: has_crlf_has_lf)
  qed
  then have dchild: "concat (map (\<lambda>(w, x). line_diags True w x) child) = []"
    by auto
  have l2: "FileformatReader_loop ?s1 child =
      ([], map (\<lambda>(w, x). (w, strip_eol x)) child, Inr ?s2)"
    using loop_new_file [of child c ?s1 True] child(1,2,3) hd_dos dchild by simp
  have ce: "eof_diags ?ce =
      (if has_crlf (snd (last child)) then [W_FILE_DOS_EOFCRLF (fst (last child))] else [])"
    using child(5) by (auto simp: eof_diags_def dest: has_crlf_has_lf)
  show ?thesis
  proof (cases post)
    case Nil
    have "FileformatReader_loop ff_init (pre @ child @ post) =
        (?dpre, map (\<lambda>(w, x). (w, strip_eol x)) pre @ map (\<lambda>(w, x). (w, strip_eol x)) child, Inr ?s2)"
      by (simp add: Nil loop_append l1 l2)
    moreover have "FileformatReader_finish ?s2 = (eof_diags ?ce @ eof_diags ?pe, None)"
      using finish_known [of ?s2] by (auto simp: known_def)
    ultimately have "fst (FileformatReader_iter (pre @ child @ post)) =
        ?dpre @ eof_diags ?ce @ eof_diags ?pe"
      by (simp add: FileformatReader_iter_def)
    moreover have "eof_diags ?pe =
        (let (w, x) = last pre in if has_lf x then [] else [W_FILE_UNIX_NOLF w])"
      by (simp add: eof_diags_def split_beta)
    ultimately show ?thesis
      by (simp add: ce Nil rebound_def)
  next
    case (Cons it post')
    obtain w x where it: "it = (w, x)" by (cases it)
    with Cons post have w: "filename w = p" and post': "\<forall>(w, x) \<in> set post'. filename w = p"
      by auto
    let ?pe' = "\<lparr>fi_fn = p, fi_is_dos = Some False,
              fi_latest_has_lf = Some (has_lf x), fi_last_where = fst (last pre)\<rparr>"
    let ?s3 = "\<lparr>fileinfo = [?pe'], is_dos = Some False\<rparr>"
    let ?rb = "(fst (last pre), x) # post'"
    have rb: "rebound (fst (last pre)) post = ?rb"
      by (simp add: rebound_def Cons it)
    have st: "FileformatReader_step ?s2 (w, x) =
        (eof_diags ?ce @ line_diags False (fst (last pre)) x,
         Inr (?s3, (fst (last pre), strip_eol x)))"
      using step_return [of ?s2 ?ce ?pe "[]" w False x] child(3) w
      by (auto simp: known_def)
    let ?fin = "\<lparr>fileinfo = [\<lparr>fi_fn = p, fi_is_dos = Some False,
              fi_latest_has_lf = Some (has_lf (snd (last ?rb))),
              fi_last_where = fst (last ?rb)\<rparr>], is_dos = Some False\<rparr>"
    have l3: "FileformatReader_loop ?s3 post' =
        (concat (map (\<lambda>(w, x). line_diags False w x) post'),
         map (\<lambda>(w, x). (w, strip_eol x)) post', Inr ?fin)"
      using loop_same_file [of ?s3 ?pe' "[]" p False post'] post' by simp
    have l4: "FileformatReader_loop ?s2 post =
        (eof_diags ?ce @ concat (map (\<lambda>(w, x). line_diags False w x) ?rb),
         (fst (last pre), strip_eol x) # map (\<lambda>(w, x). (w, strip_eol x)) post', Inr ?fin)"
      by (simp add: Cons it st l3)
    have fin: "FileformatReader_finish ?fin =
        ((let (w, x) = last ?rb in if has_lf x then [] else [W_FILE_UNIX_NOLF w]), None)"
      using finish_known [of ?fin] by (auto simp: known_def eof_diags_def split_beta)
    have "FileformatReader_loop ff_init (pre @ child @ post) =
        (?dpre @ eof_diags ?ce @ concat (map (\<lambda>(w, x). line_diags False w x) ?rb),
         map (\<lambda>(w, x). (w, strip_eol x)) pre @ map (\<lambda>(w, x). (w, strip_eol x)) child
           @ (fst (last pre), strip_eol x) # map (\<lambda>(w, x). (w, strip_eol x)) post', Inr ?fin)"
      by (simp only: loop_append l1 l2 l4 prod.case sum.case append_Nil append_assoc)
    then have "fst (FileformatReader_iter (pre @ child @ post)) =
        ?dpre @ eof_diags ?ce @ concat (map (\<lambda>(w, x). line_diags False w x) ?rb)
        @ (let (w, x) = last ?rb in if has_lf x then [] else [W_FILE_UNIX_NOLF w])"
      by (simp only: FileformatReader_iter_def fin prod.case sum.case Let_def fst_conv append_assoc)
    then show ?thesis
      by (simp only: rb ce) simp
  qed
qed

theorem include_crlf_child_witness:
  "fst (FileformatReader_iter
        ([(p1, ascii ''a'' @ [LF])]
         @ [(c1, ascii ''x'' @ [CR, LF]), (c2crlf, ascii ''y'' @ [CR, LF])]
         @ [(p2crlf, ascii ''b'' @ [CR, LF])]))
      = [W_FILE_DOS_EOFCRLF c2crlf, W_FILE_UNIX_CRLF p1]"
proof -
  let ?pre = "[(p1, ascii ''a'' @ [LF])]"
  let ?child = "[(c1, ascii ''x'' @ [CR, LF]), (c2crlf, ascii ''y'' @ [CR, LF])]"
  let ?post = "[(p2crlf, ascii ''b'' @ [CR, LF])]"
  have h1: "?pre \<noteq> []" by simp
  have h2: "\<forall>(w, x) \<in> set ?pre. filename w = ''p.conf''" by (simp add: p1_def)
  have h3: "has_lf (snd (hd ?pre))" by (simp add: has_lf_def endswith_def)
  have h4: "\<not> has_crlf (snd (hd ?pre))" by (simp add: has_crlf_def endswith_def ascii_def)
  have h5: "?child \<noteq> []" by simp
  have h6: "\<forall>(w, x) \<in> set ?child. filename w = ''c.conf''" by (simp add: c1_def c2crlf_def)
  have h7: "''c.conf'' \<noteq> ''p.conf''" by simp
  have h8: "\<forall>(w, x) \<in> set (butlast ?child). has_crlf x" by (simp add: has_crlf_def endswith_def)
  have h9: "has_crlf (snd (last ?child)) \<or> \<not> has_lf (snd (last ?child))"
    by (simp add: has_crlf_def endswith_def)
  have h10: "\<forall>(w, x) \<in> set ?post. filename w = ''p.conf''" by (simp add: p2crlf_def)
  have r: "fst (FileformatReader_iter (?pre @ ?child @ ?post))
      = [W_FILE_DOS_EOFCRLF c2crlf, W_FILE_UNIX_CRLF p1]"
    using include_crlf_child [OF h1 h2 h3 h4 h5 h6 h7 h8 h9 h10]
    by (simp add: line_diags_def rebound_def has_crlf_def has_lf_def endswith_def ascii_def)
  from r show ?thesis .
qed

section \<open>Properties of the source stack\<close>


lemma next_source_None: "next_source srcs cl = (None, srcs', cl') \<Longrightarrow> srcs' = []"
  by (induction srcs arbitrary: cl) (auto split: list.splits)










section \<open>Properties of the whole reader\<close>

lemma strip_eol_prefix: "\<exists>suf. t = strip_eol t @ suf"
proof -
  have "\<exists>suf. t = take n t @ suf" for n
    by (metis append_take_drop_id)
  then show ?thesis by (simp add: strip_eol_def)
qed

lemma cleaned_prefix: "\<exists>suf. t = cleaned t @ suf"
proof -
  obtain s1 where 1: "t = strip_eol t @ s1" using strip_eol_prefix by blast
  obtain s2 where 2: "strip_eol t = cleaned t @ s2"
    unfolding cleaned_def using rstrip_blank_prefix by blast
  from 1 2 have "t = cleaned t @ (s2 @ s1)" by simp
  then show ?thesis ..
qed

lemma has_escaped_delim_append: "has_escaped_delim xs \<Longrightarrow> has_escaped_delim (xs @ ys)"
  by (induction xs rule: has_escaped_delim.induct) auto

lemma has_lf_last: "has_lf t \<longleftrightarrow> t \<noteq> [] \<and> last t = LF"
proof
  assume "has_lf t"
  then obtain pre where "t = pre @ [LF]" by (auto simp: has_lf_def endswith_iff)
  then show "t \<noteq> [] \<and> last t = LF" by simp
next
  assume "t \<noteq> [] \<and> last t = LF"
  then have "t = butlast t @ [LF]" by (metis append_butlast_last_id)
  then show "has_lf t" unfolding has_lf_def endswith_iff by blast
qed

lemma strip_eol_no_lf:
  assumes "LF \<notin> set (butlast t)"
  shows "LF \<notin> set (strip_eol t)"
proof (cases "has_lf t")
  case True
  then have t: "t = butlast t @ [LF]"
    by (metis has_lf_last append_butlast_last_id)
  have "set (take n t) \<subseteq> set (butlast t)" if "n < length t" for n
    using that by (metis butlast_conv_take set_take_subset_set_take less_Suc_eq_le Suc_pred' length_greater_0_conv list.size(3) not_less_zero)
  moreover from t have "0 < length t" by (cases t) auto
  moreover have "has_crlf t \<Longrightarrow> 2 \<le> length t"
    by (auto simp: has_crlf_def endswith_iff)
  ultimately have "set (strip_eol t) \<subseteq> set (butlast t)"
    using True by (auto simp: strip_eol_def)
  with assms show ?thesis by auto
next
  case False
  then have "strip_eol t = t"
    by (auto simp: strip_eol_def dest: has_crlf_has_lf)
  moreover have "LF \<notin> set t"
  proof (cases "t = []")
    case True
    then show ?thesis by simp
  next
    case ne: False
    with False have "last t \<noteq> LF" by (simp add: has_lf_last)
    moreover from ne have "set t = set (butlast t) \<union> {last t}"
      by (metis append_butlast_last_id set_append list.set(2) list.set(1) Un_insert_right sup_bot.right_neutral)
    ultimately show ?thesis using assms by auto
  qed
  ultimately show ?thesis by simp
qed

lemma cleaned_props:
  assumes "plain_text t"
  shows "\<not> has_lf (cleaned t)" "\<not> has_crlf (cleaned t)" "strip_eol (cleaned t) = cleaned t"
    "set (cleaned t) \<inter> illegal = {}" "\<not> endswith_blank (cleaned t)"
    "\<not> has_escaped_delim (cleaned t)"
proof -
  obtain suf where t: "t = cleaned t @ suf" using cleaned_prefix by blast
  obtain s2 where s: "strip_eol t = cleaned t @ s2"
    unfolding cleaned_def using rstrip_blank_prefix by blast
  from assms have "LF \<notin> set (strip_eol t)"
    by (intro strip_eol_no_lf) (simp add: plain_text_def)
  with s have "LF \<notin> set (cleaned t)" by (metis Un_iff set_append)
  then show 1: "\<not> has_lf (cleaned t)"
    by (metis has_lf_last last_in_set)
  then show 2: "\<not> has_crlf (cleaned t)"
    by (auto dest: has_crlf_has_lf)
  from 1 2 show "strip_eol (cleaned t) = cleaned t"
    by (simp add: strip_eol_def)
  from t have "set (cleaned t) \<subseteq> set t" by (metis Un_upper1 set_append)
  with assms show "set (cleaned t) \<inter> illegal = {}"
    by (auto simp: plain_text_def)
  show "\<not> endswith_blank (cleaned t)"
    by (simp add: cleaned_def rstrip_blank_not_blank)
  from assms have "\<not> has_escaped_delim t" by (simp add: plain_text_def)
  with t show "\<not> has_escaped_delim (cleaned t)"
    by (metis has_escaped_delim_append)
qed

lemma comment_split_concat:
  assumes "\<not> has_escaped_delim x"
  shows "fst (comment_split x) @ snd (comment_split x) = x"
proof (cases "BACKSLASH \<in> set x")
  case False
  then show ?thesis
    using simple_comment_split_concat [of x] by (cases "simple_comment_split x") (simp add: comment_split_def)
next
  case True
  then show ?thesis
    using escape_comment_split_concat [OF assms] by (cases "escape_comment_split x") (simp add: comment_split_def)
qed

lemma ent_rel_names: "list_all2 ent_rel xs ys \<Longrightarrow> map fi_fn xs = map fi_fn ys"
  by (induction rule: list_all2_induct) (auto simp: ent_rel_def)

lemma ent_rel_dropWhile:
  "list_all2 ent_rel xs ys \<Longrightarrow>
   list_all2 ent_rel (dropWhile (\<lambda>e. fi_fn e \<noteq> f) xs) (dropWhile (\<lambda>e. fi_fn e \<noteq> f) ys)"
  by (induction rule: list_all2_induct) (auto simp: ent_rel_def)

lemma ent_rel_quiet:
  "list_all2 ent_rel xs ys \<Longrightarrow> concat (map eof_diags ys) = [] \<and> (\<forall>e \<in> set ys. known e)"
  by (induction rule: list_all2_induct) (auto simp: ent_rel_def eof_diags_def known_def)

lemma sim_inv2: "sim s1 s2 \<Longrightarrow> ff_inv s2"
proof -
  assume s: "sim s1 s2"
  then have l: "list_all2 ent_rel (fileinfo s1) (fileinfo s2)" by (simp add: sim_def)
  from ent_rel_quiet [OF l] have k: "\<forall>e \<in> set (fileinfo s2). known e" by simp
  have "is_dos s2 = fi_is_dos (hd (fileinfo s2))" if "fileinfo s2 \<noteq> []"
  proof -
    from that obtain e r where f: "fileinfo s2 = e # r" by (cases "fileinfo s2") auto
    with l obtain e1 r1 where "fileinfo s1 = e1 # r1" "ent_rel e1 e"
      by (cases "fileinfo s1") auto
    with s f that show ?thesis by (simp add: sim_def ent_rel_def)
  qed
  with k show ?thesis by (simp add: ff_inv_def)
qed

lemma step_return_drop:
  assumes "ff_inv s" "fileinfo s \<noteq> []" "fi_fn (hd (fileinfo s)) \<noteq> filename wh"
    "filename wh \<in> fi_fn ` set (fileinfo s)"
  shows "\<exists>e rest d. dropWhile (\<lambda>e. fi_fn e \<noteq> filename wh) (fileinfo s) = e # rest
      \<and> fi_fn e = filename wh \<and> fi_is_dos e = Some d \<and> known e \<and> (\<forall>x \<in> set rest. known x)
      \<and> FileformatReader_step s (wh, data) =
         (concat (map eof_diags (takeWhile (\<lambda>e. fi_fn e \<noteq> filename wh) (fileinfo s)))
            @ line_diags d (fi_last_where e) data,
          Inr (\<lparr>fileinfo = e\<lparr>fi_latest_has_lf := Some (has_lf data)\<rparr> # rest, is_dos = Some d\<rparr>,
               (fi_last_where e, strip_eol data)))"
proof -
  from find_dropWhile_name [OF assms(4)] obtain e rest where
    e: "dropWhile (\<lambda>e. fi_fn e \<noteq> filename wh) (fileinfo s) = e # rest"
       "fi_fn e = filename wh" "set (e # rest) \<subseteq> set (fileinfo s)"
    by auto
  from assms(1) have kn: "\<forall>e \<in> set (fileinfo s). known e"
    by (simp add: ff_inv_def)
  with e(3) have ke: "known e" "\<forall>x \<in> set rest. known x" by auto
  then obtain d where d: "fi_is_dos e = Some d" by (auto simp: known_def)
  have "FileformatReader_step s (wh, data) =
         (concat (map eof_diags (takeWhile (\<lambda>e. fi_fn e \<noteq> filename wh) (fileinfo s)))
            @ line_diags d (fi_last_where e) data,
          Inr (\<lparr>fileinfo = e\<lparr>fi_latest_has_lf := Some (has_lf data)\<rparr> # rest, is_dos = Some d\<rparr>,
               (fi_last_where e, strip_eol data)))"
    using assms(2,3,4) e(1) d
    by (simp add: FileformatReader_step_def select_fileinfo_def pop_fileinfo_known [OF kn]
        check_line_eq)
  with e ke d show ?thesis by blast
qed

lemma quiet_line: "\<not> has_lf d \<Longrightarrow> line_diags True w d = [] \<and> strip_eol d = d \<and> \<not> has_crlf d"
  by (auto simp: line_diags_def strip_eol_def dest: has_crlf_has_lf)

lemma sim_step:
  assumes sim: "sim s1 s2" and pos: "same_pos w1 w2" and d: "\<not> has_lf d"
  shows "\<exists>ds1 s1' w1' s2' w2'.
     FileformatReader_step s1 (w1, t) = (ds1, Inr (s1', (w1', strip_eol t)))
     \<and> FileformatReader_step s2 (w2, d) = ([], Inr (s2', (w2', d)))
     \<and> sim s1' s2' \<and> same_pos w1' w2'"
proof -
  from sim have inv1: "ff_inv s1" and rel: "list_all2 ent_rel (fileinfo s1) (fileinfo s2)"
    and top2: "fileinfo s2 \<noteq> [] \<longrightarrow> is_dos s2 = Some True"
    by (simp_all add: sim_def)
  from sim have inv2: "ff_inv s2" by (rule sim_inv2)
  from pos have fn: "filename w2 = filename w1" by (simp add: same_pos_def)
  from ent_rel_names [OF rel] have names: "map fi_fn (fileinfo s1) = map fi_fn (fileinfo s2)" .
  then have names_set: "fi_fn ` set (fileinfo s1) = fi_fn ` set (fileinfo s2)"
    by (metis set_map)
  note q = quiet_line [OF d]
  show ?thesis
  proof (cases "filename w1 \<in> fi_fn ` set (fileinfo s1)")
    case False
    let ?d1 = "has_crlf t \<or> \<not> has_lf t"
    let ?e1 = "\<lparr>fi_fn = filename w1, fi_is_dos = Some ?d1,
                fi_latest_has_lf = Some (has_lf t), fi_last_where = w1\<rparr>"
    let ?e2 = "\<lparr>fi_fn = filename w2, fi_is_dos = Some True,
                fi_latest_has_lf = Some False, fi_last_where = w2\<rparr>"
    let ?s1 = "\<lparr>fileinfo = ?e1 # fileinfo s1, is_dos = Some ?d1\<rparr>"
    let ?s2 = "\<lparr>fileinfo = ?e2 # fileinfo s2, is_dos = Some True\<rparr>"
    have st1: "FileformatReader_step s1 (w1, t) = (line_diags ?d1 w1 t, Inr (?s1, (w1, strip_eol t)))"
      using step_new_file [OF False, of t] by simp
    from False names_set fn have "filename w2 \<notin> fi_fn ` set (fileinfo s2)" by simp
    from step_new_file [OF this, of d] d q
    have st2: "FileformatReader_step s2 (w2, d) = ([], Inr (?s2, (w2, d)))" by simp
    have "ff_inv ?s1" using inv1 by (simp add: ff_inv_def known_def)
    moreover have "ent_rel ?e1 ?e2" using pos fn by (simp add: ent_rel_def)
    ultimately have "sim ?s1 ?s2" using rel by (simp add: sim_def)
    with st1 st2 pos show ?thesis by blast
  next
    case True
    then obtain e1 r1 where f1: "fileinfo s1 = e1 # r1"
      by (cases "fileinfo s1") auto
    with rel obtain e2 r2 where f2: "fileinfo s2 = e2 # r2" and e12: "ent_rel e1 e2"
      and r12: "list_all2 ent_rel r1 r2"
      by (cases "fileinfo s2") auto
    show ?thesis
    proof (cases "fi_fn e1 = filename w1")
      case same: True
      from inv1 f1 obtain d1 where d1: "is_dos s1 = Some d1" "fi_is_dos e1 = Some d1"
        by (auto simp: ff_inv_def known_def)
      from top2 f2 have d2: "is_dos s2 = Some True" by simp
      from same e12 fn have same2: "fi_fn e2 = filename w2" by (simp add: ent_rel_def)
      let ?e1 = "e1\<lparr>fi_latest_has_lf := Some (has_lf t), fi_last_where := w1\<rparr>"
      let ?e2 = "e2\<lparr>fi_latest_has_lf := Some (has_lf d), fi_last_where := w2\<rparr>"
      let ?s1 = "\<lparr>fileinfo = ?e1 # r1, is_dos = Some d1\<rparr>"
      let ?s2 = "\<lparr>fileinfo = ?e2 # r2, is_dos = Some True\<rparr>"
      have st1: "FileformatReader_step s1 (w1, t) = (line_diags d1 w1 t, Inr (?s1, (w1, strip_eol t)))"
        by (rule step_same_file [OF f1 same d1(1)])
      have st2: "FileformatReader_step s2 (w2, d) = ([], Inr (?s2, (w2, d)))"
        using step_same_file [OF f2 same2 d2, of d] q by simp
      have "ff_inv ?s1" using inv1 f1 d1 by (simp add: ff_inv_def known_def)
      moreover have "ent_rel ?e1 ?e2" using e12 pos d by (simp add: ent_rel_def)
      ultimately have "sim ?s1 ?s2" using r12 by (simp add: sim_def)
      with st1 st2 pos show ?thesis by blast
    next
      case False
      with f1 have ne1: "fileinfo s1 \<noteq> []" "fi_fn (hd (fileinfo s1)) \<noteq> filename w1" by auto
      from False e12 fn f2 have ne2: "fileinfo s2 \<noteq> []" "fi_fn (hd (fileinfo s2)) \<noteq> filename w2"
        by (auto simp: ent_rel_def)
      from True names_set fn have in2: "filename w2 \<in> fi_fn ` set (fileinfo s2)" by simp
      from step_return_drop [OF inv1 ne1 True, of t] obtain x1 rest1 d1 where
        x1: "dropWhile (\<lambda>e. fi_fn e \<noteq> filename w1) (fileinfo s1) = x1 # rest1"
          "fi_is_dos x1 = Some d1" "known x1" "\<forall>x \<in> set rest1. known x"
        and st1: "FileformatReader_step s1 (w1, t) =
         (concat (map eof_diags (takeWhile (\<lambda>e. fi_fn e \<noteq> filename w1) (fileinfo s1)))
            @ line_diags d1 (fi_last_where x1) t,
          Inr (\<lparr>fileinfo = x1\<lparr>fi_latest_has_lf := Some (has_lf t)\<rparr> # rest1, is_dos = Some d1\<rparr>,
               (fi_last_where x1, strip_eol t)))"
        by blast
      from step_return_drop [OF inv2 ne2 in2, of d] obtain x2 rest2 d2 where
        x2: "dropWhile (\<lambda>e. fi_fn e \<noteq> filename w2) (fileinfo s2) = x2 # rest2"
          "fi_is_dos x2 = Some d2"
        and st2: "FileformatReader_step s2 (w2, d) =
         (concat (map eof_diags (takeWhile (\<lambda>e. fi_fn e \<noteq> filename w2) (fileinfo s2)))
            @ line_diags d2 (fi_last_where x2) d,
          Inr (\<lparr>fileinfo = x2\<lparr>fi_latest_has_lf := Some (has_lf d)\<rparr> # rest2, is_dos = Some d2\<rparr>,
               (fi_last_where x2, strip_eol d)))"
        by blast
      from ent_rel_dropWhile [OF rel, of "filename w1"] x1(1) x2(1) fn
      have x12: "ent_rel x1 x2" and rest12: "list_all2 ent_rel rest1 rest2"
        by simp_all
      from x12 x2(2) have d2: "d2 = True" by (simp add: ent_rel_def)
      have tw: "concat (map eof_diags (takeWhile (\<lambda>e. fi_fn e \<noteq> filename w2) (fileinfo s2))) = []"
      proof -
        from ent_rel_quiet [OF rel] have "\<forall>e \<in> set (fileinfo s2). eof_diags e = []"
          by auto
        then have "\<forall>e \<in> set (takeWhile (\<lambda>e. fi_fn e \<noteq> filename w2) (fileinfo s2)). eof_diags e = []"
          by (meson set_takeWhileD)
        then show ?thesis by simp
      qed
      let ?s1 = "\<lparr>fileinfo = x1\<lparr>fi_latest_has_lf := Some (has_lf t)\<rparr> # rest1, is_dos = Some d1\<rparr>"
      let ?s2 = "\<lparr>fileinfo = x2\<lparr>fi_latest_has_lf := Some (has_lf d)\<rparr> # rest2, is_dos = Some True\<rparr>"
      have st2': "FileformatReader_step s2 (w2, d) = ([], Inr (?s2, (fi_last_where x2, d)))"
        using st2 tw d2 q by simp
      have "ff_inv ?s1" using x1 by (simp add: ff_inv_def known_def)
      moreover have "ent_rel (x1\<lparr>fi_latest_has_lf := Some (has_lf t)\<rparr>) (x2\<lparr>fi_latest_has_lf := Some (has_lf d)\<rparr>)"
        using x12 d by (simp add: ent_rel_def)
      ultimately have "sim ?s1 ?s2" using rest12 by (simp add: sim_def)
      moreover from x12 have "same_pos (fi_last_where x1) (fi_last_where x2)"
        by (simp add: ent_rel_def)
      ultimately show ?thesis using st1 st2' by blast
    qed
  qed
qed

lemma acr_step:
  "AsteriskCommentReader_step (w, x) =
     (if endswith_blank x then [W_WSH_EOL w] else [],
      (w, fst (comment_split (rstrip_blank x)), snd (comment_split (rstrip_blank x))))"
  by (simp add: AsteriskCommentReader_step_def rstrip_blank_id split_beta)

lemma first_step:
  assumes "decoded raw = Some t"
    and "FileformatReader_step s (w, t) = (ds3, Inr (s', (w', strip_eol t)))"
  shows "\<exists>ds. FileReader_step s (w, raw) =
     (ds, Inr (s', (w', fst (comment_split (cleaned t)), snd (comment_split (cleaned t)))))"
proof -
  from assms(1) obtain eds where "EncodingReader_step (w, raw) = (eds, Inr (w, t))"
    by (auto simp: decoded_def EncodingReader_step_def split: option.splits)
  moreover obtain cds where "NoCtrlReader_step (w, t) = (cds, (w, t))"
    by (simp add: NoCtrlReader_step_def Let_def)
  ultimately show ?thesis
    using assms(2) by (simp add: FileReader_step_def acr_step cleaned_def)
qed

lemma second_step:
  assumes "utf8_decode raw2 = Some d" "set d \<inter> illegal = {}" "\<not> endswith_blank d"
    and "FileformatReader_step s2 (w2, d) = ([], Inr (s2', (w2', d)))"
  shows "FileReader_step s2 (w2, raw2) =
     ([], Inr (s2', (w2', fst (comment_split d), snd (comment_split d))))"
proof -
  from assms(1) have "EncodingReader_step (w2, raw2) = ([], Inr (w2, d))"
    by (simp add: EncodingReader_step_def)
  moreover from assms(2) have "NoCtrlReader_step (w2, d) = ([], (w2, d))"
    by (simp add: NoCtrlReader_step_def Let_def)
  ultimately show ?thesis
    using assms(3,4) by (simp add: FileReader_step_def acr_step rstrip_blank_id)
qed

lemma rerun_input_Cons:
  "rerun_input ((w1, raw1) # items) ((w, cm) # recs) ((w2, raw2) # items2) \<longleftrightarrow>
     same_pos w1 w2 \<and> utf8_decode raw2 = Some (fst cm @ snd cm) \<and> rerun_input items recs items2"
  by (cases cm) simp

lemma rerun_loop:
  assumes "sim s1 s2"
    and "\<forall>(w, raw) \<in> set items. case decoded raw of None \<Rightarrow> False | Some t \<Rightarrow> plain_text t"
    and "FileReader_loop s1 items = (ds1, recs1, r1)"
    and "rerun_input items recs1 items2"
  shows "\<exists>s1' s2' recs2. r1 = Inr s1' \<and> FileReader_loop s2 items2 = ([], recs2, Inr s2')
     \<and> sim s1' s2' \<and> list_all2 same_record recs1 recs2"
  using assms
proof (induction items arbitrary: s1 s2 ds1 recs1 r1 items2)
  case Nil
  then have "recs1 = []" "r1 = Inr s1" by simp_all
  moreover with Nil.prems(4) have "items2 = []"
    by (cases items2) simp_all
  ultimately show ?case using Nil.prems(1) by simp
next
  case (Cons item items)
  obtain w1 raw1 where item: "item = (w1, raw1)" by (cases item)
  from Cons.prems(2) item obtain t where t: "decoded raw1 = Some t" "plain_text t"
    by (auto split: option.splits)
  note cp = cleaned_props [OF t(2)]
  from Cons.prems(1) have inv1: "ff_inv s1" by (simp add: sim_def)
  from step_total [OF inv1, of w1 t] obtain ds3 s1' w1' where
    ff1: "FileformatReader_step s1 (w1, t) = (ds3, Inr (s1', (w1', strip_eol t)))"
    by blast
  let ?c = "fst (comment_split (cleaned t))" and ?m = "snd (comment_split (cleaned t))"
  from first_step [OF t(1) ff1] obtain ds where
    fr1: "FileReader_step s1 (w1, raw1) = (ds, Inr (s1', (w1', ?c, ?m)))"
    by blast
  obtain ds' outs r where lp: "FileReader_loop s1' items = (ds', outs, r)"
    by (cases "FileReader_loop s1' items") auto
  from Cons.prems(3) item fr1 lp have res: "recs1 = (w1', ?c, ?m) # outs" "r1 = r"
    by simp_all
  from Cons.prems(4) item res obtain w2 raw2 rest2 where
    i2: "items2 = (w2, raw2) # rest2" and pos: "same_pos w1 w2"
    and dec2: "utf8_decode raw2 = Some (?c @ ?m)" and ri: "rerun_input items outs rest2"
    by (cases items2) (auto simp: rerun_input_Cons)
  from comment_split_concat [OF cp(6)] dec2 have dec2': "utf8_decode raw2 = Some (cleaned t)"
    by simp
  from sim_step [OF Cons.prems(1) pos cp(1), of t] ff1 obtain s2' w2' where
    ff2: "FileformatReader_step s2 (w2, cleaned t) = ([], Inr (s2', (w2', cleaned t)))"
    and sim': "sim s1' s2'" and pos': "same_pos w1' w2'"
    by auto
  from second_step [OF dec2' cp(4) cp(5) ff2]
  have fr2: "FileReader_step s2 (w2, raw2) = ([], Inr (s2', (w2', ?c, ?m)))" .
  from Cons.prems(2) have rest_plain:
    "\<forall>(w, raw) \<in> set items. case decoded raw of None \<Rightarrow> False | Some t \<Rightarrow> plain_text t"
    by simp
  from Cons.IH [OF sim' rest_plain lp ri] obtain s1'' s2'' recs2 where
    ih: "r = Inr s1''" "FileReader_loop s2' rest2 = ([], recs2, Inr s2'')"
      "sim s1'' s2''" "list_all2 same_record outs recs2"
    by blast
  have "FileReader_loop s2 items2 = ([], (w2', ?c, ?m) # recs2, Inr s2'')"
    by (simp add: i2 fr2 ih(2))
  moreover have "list_all2 same_record recs1 ((w2', ?c, ?m) # recs2)"
    using ih(4) pos' by (simp add: res same_record_def)
  ultimately show ?case using ih(1,3) res(2) by blast
qed

lemma sim_init: "sim ff_init ff_init"
  by (simp add: sim_def ff_inv_init) (simp add: ff_init_def)

lemma rerun_plain_any:
  assumes "\<forall>(w, raw) \<in> set items. case decoded raw of None \<Rightarrow> False | Some t \<Rightarrow> plain_text t"
    and "FileReader_iter items = (ds1, recs1, err1)"
    and "rerun_input items recs1 items2"
  shows "err1 = None
     \<and> (\<exists>recs2. FileReader_iter items2 = ([], recs2, None) \<and> list_all2 same_record recs1 recs2)"
proof -
  obtain dl rl r1 where lp: "FileReader_loop ff_init items = (dl, rl, r1)"
    by (cases "FileReader_loop ff_init items") auto
  have recs: "recs1 = rl"
    using assms(2) lp by (auto simp: FileReader_iter_def split: sum.splits prod.splits)
  from rerun_loop [OF sim_init assms(1) lp] assms(3) recs obtain s1' s2' recs2 where
    r: "r1 = Inr s1'" "FileReader_loop ff_init items2 = ([], recs2, Inr s2')"
      "sim s1' s2'" "list_all2 same_record recs1 recs2"
    by blast
  from r(3) have "ff_inv s1'" "list_all2 ent_rel (fileinfo s1') (fileinfo s2')"
    by (simp_all add: sim_def)
  moreover from r(3) have "ff_inv s2'" by (rule sim_inv2)
  ultimately have "ff_inv s1'" "ff_inv s2'" "list_all2 ent_rel (fileinfo s1') (fileinfo s2')"
    by simp_all
  then have f1: "snd (FileformatReader_finish s1') = None"
    and f2: "FileformatReader_finish s2' = ([], None)"
    using ent_rel_quiet [of "fileinfo s1'" "fileinfo s2'"]
    by (simp_all add: finish_known ff_inv_def)
  from assms(2) lp r(1) f1 have "err1 = None"
    by (auto simp: FileReader_iter_def split: prod.splits)
  moreover have "FileReader_iter items2 = ([], recs2, None)"
    by (simp add: FileReader_iter_def r(2) f2)
  ultimately show ?thesis using r(4) by blast
qed

text \<open>UTF-8: decoding what was encoded, and the code points that decoding gives.\<close>

lemma byte_of_nat: "n < 256 \<Longrightarrow> unat (of_nat n :: byte) = n"
  by (simp add: unat_of_nat)

lemma utf8_first_1:
  assumes "cp < 0x80"
  shows "utf8_first (of_nat cp) rest = Some (cp, 0)"
  using assms
  by (simp add: utf8_first_def word_less_nat_alt byte_of_nat)

lemma utf8_first_2:
  assumes "0xC2 \<le> n0" "n0 \<le> 0xDF" "0x80 \<le> n1" "n1 \<le> 0xBF"
  shows "utf8_first (of_nat n0) (of_nat n1 # rest) = Some ((n0 - 0xC0) * 64 + (n1 - 0x80), 1)"
  using assms
  by (simp add: utf8_first_def is_cont_def word_less_nat_alt word_le_nat_alt byte_of_nat)

lemma utf8_first_3:
  assumes "0xE0 \<le> n0" "n0 \<le> 0xEF" "(if n0 = 0xE0 then 0xA0 else 0x80) \<le> n1"
    "n1 \<le> (if n0 = 0xED then 0x9F else 0xBF)" "0x80 \<le> n2" "n2 \<le> 0xBF"
  shows "utf8_first (of_nat n0) (of_nat n1 # of_nat n2 # rest)
     = Some (((n0 - 0xE0) * 64 + (n1 - 0x80)) * 64 + (n2 - 0x80), 2)"
proof -
  have b: "n0 < 256" "n1 < 256" "n2 < 256"
    using assms by (auto split: if_splits)
  have e: "((of_nat n0 :: byte) = 0xE0) = (n0 = 0xE0)" "((of_nat n0 :: byte) = 0xED) = (n0 = 0xED)"
    using b by (simp_all add: word_unat_eq_iff byte_of_nat)
  show ?thesis
    using assms b unfolding utf8_first_def is_cont_def e
    by (simp add: word_less_nat_alt word_le_nat_alt byte_of_nat if_distrib [of unat] cong: if_cong)
qed

lemma utf8_first_4:
  assumes "0xF0 \<le> n0" "n0 \<le> 0xF4" "(if n0 = 0xF0 then 0x90 else 0x80) \<le> n1"
    "n1 \<le> (if n0 = 0xF4 then 0x8F else 0xBF)" "0x80 \<le> n2" "n2 \<le> 0xBF"
    "0x80 \<le> n3" "n3 \<le> 0xBF"
  shows "utf8_first (of_nat n0) (of_nat n1 # of_nat n2 # of_nat n3 # rest)
     = Some ((((n0 - 0xF0) * 64 + (n1 - 0x80)) * 64 + (n2 - 0x80)) * 64 + (n3 - 0x80), 3)"
proof -
  have b: "n0 < 256" "n1 < 256" "n2 < 256" "n3 < 256"
    using assms by (auto split: if_splits)
  have e: "((of_nat n0 :: byte) = 0xF0) = (n0 = 0xF0)" "((of_nat n0 :: byte) = 0xF4) = (n0 = 0xF4)"
    using b by (simp_all add: word_unat_eq_iff byte_of_nat)
  show ?thesis
    using assms b unfolding utf8_first_def is_cont_def e
    by (simp add: word_less_nat_alt word_le_nat_alt byte_of_nat if_distrib [of unat] cong: if_cong)
qed

text \<open>The digits of a code point in base 64.\<close>

lemma base64_digits:
  fixes cp :: nat
  shows "cp div 64 div 64 = cp div 4096" "cp div 4096 div 64 = cp div 262144"
    "cp = cp div 64 * 64 + cp mod 64"
    "cp div 64 = cp div 4096 * 64 + cp div 64 mod 64"
    "cp div 4096 = cp div 262144 * 64 + cp div 4096 mod 64"
    "cp mod 64 < 64" "cp div 64 mod 64 < 64" "cp div 4096 mod 64 < 64"
proof -
  show 1: "cp div 64 div 64 = cp div 4096" by (simp add: div_mult2_eq [symmetric])
  show 2: "cp div 4096 div 64 = cp div 262144" by (simp add: div_mult2_eq [symmetric])
  show "cp = cp div 64 * 64 + cp mod 64" by simp
  have "cp div 64 = cp div 64 div 64 * 64 + cp div 64 mod 64" by simp
  with 1 show "cp div 64 = cp div 4096 * 64 + cp div 64 mod 64" by simp
  have "cp div 4096 = cp div 4096 div 64 * 64 + cp div 4096 mod 64" by simp
  with 2 show "cp div 4096 = cp div 262144 * 64 + cp div 4096 mod 64" by simp
qed simp_all

lemma bounds2:
  fixes cp q1 e :: nat
  assumes "cp = q1 * 64 + e" "e < 64" "128 \<le> cp" "cp < 2048"
  shows "2 \<le> q1" "q1 \<le> 31"
  using assms by linarith+

lemma bounds3:
  fixes cp q1 q2 c e :: nat
  assumes "cp = q1 * 64 + e" "q1 = q2 * 64 + c" "e < 64" "c < 64" "2048 \<le> cp" "cp < 65536"
  shows "q2 \<le> 15" "q2 = 0 \<Longrightarrow> 32 \<le> c" "q2 = 13 \<Longrightarrow> cp < 55296 \<Longrightarrow> c \<le> 31"
    "q2 = 13 \<Longrightarrow> 57344 \<le> cp \<Longrightarrow> False"
  using assms by linarith+

lemma bounds4:
  fixes cp q1 q2 a b c e :: nat
  assumes "cp = q1 * 64 + e" "q1 = q2 * 64 + c" "q2 = a * 64 + b" "e < 64" "c < 64" "b < 64"
    "65536 \<le> cp" "cp < 1114112"
  shows "a \<le> 4" "a = 0 \<Longrightarrow> 16 \<le> b" "a = 4 \<Longrightarrow> b \<le> 15"
  using assms by linarith+

lemma decode_encode_char:
  assumes "is_scalar cp"
  shows "utf8_decode (utf8_encode_char cp @ rest) = map_option ((#) cp) (utf8_decode rest)"
proof -
  let ?a = "cp div 262144" and ?b = "cp div 4096 mod 64" and ?c = "cp div 64 mod 64"
    and ?e = "cp mod 64" and ?q1 = "cp div 64" and ?q2 = "cp div 4096"
  note d = base64_digits [of cp]
  have e1: "cp = ?q1 * 64 + ?e" and e2: "?q1 = ?q2 * 64 + ?c" and e3: "?q2 = ?a * 64 + ?b"
    and l: "?e < 64" "?c < 64" "?b < 64"
    using d by simp_all
  from assms have sc: "cp < 1114112" "cp < 55296 \<or> 57344 \<le> cp"
    by (auto simp: is_scalar_def)
  consider "cp < 128" | "128 \<le> cp" "cp < 2048" | "2048 \<le> cp" "cp < 65536"
    | "65536 \<le> cp"
    by linarith
  then show ?thesis
  proof cases
    case 1
    then show ?thesis
      by (simp add: utf8_encode_char_def utf8_first_1)
  next
    case 2
    note bd = bounds2 [OF e1 l(1) 2]
    have "utf8_first (of_nat (0xC0 + ?q1)) (of_nat (0x80 + ?e) # rest)
        = Some ((0xC0 + ?q1 - 0xC0) * 64 + (0x80 + ?e - 0x80), 1)"
      by (rule utf8_first_2) (use bd l in simp_all)
    then have "utf8_first (of_nat (0xC0 + ?q1)) (of_nat (0x80 + ?e) # rest) = Some (cp, 1)"
      by simp
    with 2 show ?thesis
      by (simp add: utf8_encode_char_def)
  next
    case 3
    note bd = bounds3 [OF e1 e2 l(1,2) 3]
    have "utf8_first (of_nat (0xE0 + ?q2)) (of_nat (0x80 + ?c) # of_nat (0x80 + ?e) # rest)
        = Some (((0xE0 + ?q2 - 0xE0) * 64 + (0x80 + ?c - 0x80)) * 64 + (0x80 + ?e - 0x80), 2)"
    proof (rule utf8_first_3)
      show "(if 0xE0 + ?q2 = 0xE0 then 0xA0 else 0x80) \<le> 0x80 + ?c"
        using bd(2) by simp
      show "0x80 + ?c \<le> (if 0xE0 + ?q2 = 0xED then 0x9F else 0xBF)"
        using bd(3,4) sc(2) l(2) by auto
    qed (use bd(1) l in simp_all)
    moreover have "(?q2 * 64 + ?c) * 64 + ?e = cp"
      using e1 e2 by presburger
    ultimately have "utf8_first (of_nat (0xE0 + ?q2)) (of_nat (0x80 + ?c) # of_nat (0x80 + ?e) # rest)
        = Some (cp, 2)"
      by simp
    with 3 show ?thesis
      by (simp add: utf8_encode_char_def)
  next
    case 4
    note bd = bounds4 [OF e1 e2 e3 l 4 sc(1)]
    have "utf8_first (of_nat (0xF0 + ?a)) (of_nat (0x80 + ?b) # of_nat (0x80 + ?c) # of_nat (0x80 + ?e) # rest)
        = Some ((((0xF0 + ?a - 0xF0) * 64 + (0x80 + ?b - 0x80)) * 64 + (0x80 + ?c - 0x80)) * 64
                 + (0x80 + ?e - 0x80), 3)"
    proof (rule utf8_first_4)
      show "(if 0xF0 + ?a = 0xF0 then 0x90 else 0x80) \<le> 0x80 + ?b"
        using bd(2) by simp
      show "0x80 + ?b \<le> (if 0xF0 + ?a = 0xF4 then 0x8F else 0xBF)"
        using bd(3) l(3) by auto
    qed (use bd(1) l in simp_all)
    moreover have "((?a * 64 + ?b) * 64 + ?c) * 64 + ?e = cp"
      using e1 e2 e3 by presburger
    ultimately have "utf8_first (of_nat (0xF0 + ?a))
        (of_nat (0x80 + ?b) # of_nat (0x80 + ?c) # of_nat (0x80 + ?e) # rest) = Some (cp, 3)"
      by simp
    with 4 show ?thesis
      by (simp add: utf8_encode_char_def)
  qed
qed

lemma decode_encode:
  "\<forall>cp \<in> set t. is_scalar cp \<Longrightarrow> utf8_decode (utf8_encode t) = Some t"
  by (induction t) (simp_all add: utf8_encode_def decode_encode_char)

lemma value3:
  fixes x0 x1 x2 :: nat
  assumes "x1 \<le> 63" "x2 \<le> 63"
  shows "x0 \<le> 15 \<Longrightarrow> (x0 * 64 + x1) * 64 + x2 < 65536"
    "x0 \<le> 12 \<Longrightarrow> (x0 * 64 + x1) * 64 + x2 < 55296"
    "x0 = 13 \<Longrightarrow> x1 \<le> 31 \<Longrightarrow> (x0 * 64 + x1) * 64 + x2 < 55296"
    "14 \<le> x0 \<Longrightarrow> 57344 \<le> (x0 * 64 + x1) * 64 + x2"
  using assms by (simp_all add: add_mult_distrib)

lemma value4:
  fixes x0 x1 x2 x3 :: nat
  assumes "x1 \<le> 63" "x2 \<le> 63" "x3 \<le> 63"
  shows "x0 \<le> 3 \<Longrightarrow> ((x0 * 64 + x1) * 64 + x2) * 64 + x3 < 1114112"
    "x0 = 4 \<Longrightarrow> x1 \<le> 15 \<Longrightarrow> ((x0 * 64 + x1) * 64 + x2) * 64 + x3 < 1114112"
    "1 \<le> x0 \<Longrightarrow> 65536 \<le> ((x0 * 64 + x1) * 64 + x2) * 64 + x3"
    "16 \<le> x1 \<Longrightarrow> 65536 \<le> ((x0 * 64 + x1) * 64 + x2) * 64 + x3"
  using assms by (simp_all add: add_mult_distrib)

lemma scalar1: "b0 < 0x80 \<Longrightarrow> is_scalar (unat (b0 :: byte))"
  by (simp add: word_less_nat_alt is_scalar_def)

lemma scalar2:
  fixes b0 b1 :: byte
  assumes "0xC2 \<le> b0" "b0 \<le> 0xDF" "is_cont b1"
  shows "is_scalar ((unat b0 - 0xC0) * 64 + (unat b1 - 0x80))"
proof -
  from assms have "unat b0 - 192 \<le> 31" "unat b1 - 128 \<le> 63"
    by (auto simp: word_le_nat_alt is_cont_def)
  then have "(unat b0 - 192) * 64 + (unat b1 - 128) < 2048" by linarith
  then show ?thesis by (simp add: is_scalar_def)
qed

lemma scalar3:
  fixes b0 b1 b2 :: byte
  assumes "0xE0 \<le> b0" "b0 \<le> 0xEF" "b1 \<le> (if b0 = 0xED then 0x9F else 0xBF)"
    "is_cont b2" "0x80 \<le> b1"
  shows "is_scalar (((unat b0 - 0xE0) * 64 + (unat b1 - 0x80)) * 64 + (unat b2 - 0x80))"
proof -
  define x0 where "x0 = unat b0 - 224"
  define x1 where "x1 = unat b1 - 128"
  define x2 where "x2 = unat b2 - 128"
  from assms have n: "x0 \<le> 15" "x1 \<le> 63" "x2 \<le> 63"
    unfolding x0_def x1_def x2_def
    by (auto simp: word_le_nat_alt is_cont_def split: if_splits)
  have ed: "x0 = 13 \<Longrightarrow> x1 \<le> 31"
    using assms(1,3) unfolding x0_def x1_def
    by (auto simp: word_le_nat_alt word_unat_eq_iff split: if_splits)
  let ?v = "(x0 * 64 + x1) * 64 + x2"
  have "?v < 65536" using n by (intro value3)
  moreover have "?v < 55296 \<or> 57344 \<le> ?v"
  proof -
    consider "x0 \<le> 12" | "x0 = 13" | "14 \<le> x0" by linarith
    then show ?thesis
      using value3 (2-4) [OF n(2,3), of x0] ed by cases auto
  qed
  ultimately show ?thesis
    unfolding x0_def x1_def x2_def by (auto simp: is_scalar_def)
qed

lemma scalar4:
  fixes b0 b1 b2 b3 :: byte
  assumes "0xF0 \<le> b0" "b0 \<le> 0xF4" "(if b0 = 0xF0 then 0x90 else 0x80) \<le> b1"
    "b1 \<le> (if b0 = 0xF4 then 0x8F else 0xBF)" "is_cont b2" "is_cont b3"
  shows "is_scalar ((((unat b0 - 0xF0) * 64 + (unat b1 - 0x80)) * 64
                       + (unat b2 - 0x80)) * 64 + (unat b3 - 0x80))"
proof -
  define x0 where "x0 = unat b0 - 240"
  define x1 where "x1 = unat b1 - 128"
  define x2 where "x2 = unat b2 - 128"
  define x3 where "x3 = unat b3 - 128"
  from assms have n: "x0 \<le> 4" "x1 \<le> 63" "x2 \<le> 63" "x3 \<le> 63"
    unfolding x0_def x1_def x2_def x3_def
    by (auto simp: word_le_nat_alt is_cont_def split: if_splits)
  have f0: "x0 = 0 \<Longrightarrow> 16 \<le> x1"
    using assms(1,3) unfolding x0_def x1_def
    by (auto simp: word_le_nat_alt word_unat_eq_iff split: if_splits)
  have f4: "x0 = 4 \<Longrightarrow> x1 \<le> 15"
    using assms(1,4) unfolding x0_def x1_def
    by (auto simp: word_le_nat_alt word_unat_eq_iff split: if_splits)
  let ?v = "((x0 * 64 + x1) * 64 + x2) * 64 + x3"
  have lo: "65536 \<le> ?v"
    using value4 (3,4) [OF n(2-4), of x0] f0 by (cases "x0 = 0") auto
  have hi: "?v < 1114112"
    using value4 (1,2) [OF n(2-4), of x0] f4 n(1) by (cases "x0 = 4") auto
  from lo hi show ?thesis
    unfolding x0_def x1_def x2_def x3_def by (simp add: is_scalar_def)
qed

lemma utf8_first_scalar:
  assumes "utf8_first b0 bs = Some (cp, n)"
  shows "is_scalar cp"
proof -
  consider (one) "b0 < 0x80"
    | (two) "\<not> b0 < 0x80" "0xC2 \<le> b0 \<and> b0 \<le> 0xDF"
    | (three) "\<not> b0 < 0x80" "\<not> (0xC2 \<le> b0 \<and> b0 \<le> 0xDF)" "0xE0 \<le> b0 \<and> b0 \<le> 0xEF"
    | (four) "\<not> b0 < 0x80" "\<not> (0xC2 \<le> b0 \<and> b0 \<le> 0xDF)" "\<not> (0xE0 \<le> b0 \<and> b0 \<le> 0xEF)"
        "0xF0 \<le> b0 \<and> b0 \<le> 0xF4"
    | (none) "\<not> b0 < 0x80" "\<not> (0xC2 \<le> b0 \<and> b0 \<le> 0xDF)" "\<not> (0xE0 \<le> b0 \<and> b0 \<le> 0xEF)"
        "\<not> (0xF0 \<le> b0 \<and> b0 \<le> 0xF4)"
    by blast
  then show ?thesis
  proof cases
    case one
    with assms have "cp = unat b0" by (simp add: utf8_first_def)
    with one show ?thesis by (simp add: scalar1)
  next
    case two
    with assms obtain b1 r where bs: "bs = b1 # r" and c: "is_cont b1"
      and v: "cp = (unat b0 - 0xC0) * 64 + (unat b1 - 0x80)"
      by (cases bs) (auto simp: utf8_first_def split: if_splits)
    from two c show ?thesis unfolding v by (intro scalar2) simp_all
  next
    case three
    from assms three obtain b1 b2 r where bs: "bs = b1 # b2 # r"
      by (cases bs; cases "tl bs") (auto simp: utf8_first_def)
    from assms three have c: "(if b0 = 0xE0 then 0xA0 else 0x80) \<le> b1"
      "b1 \<le> (if b0 = 0xED then 0x9F else 0xBF)" "is_cont b2"
      and v: "cp = ((unat b0 - 0xE0) * 64 + (unat b1 - 0x80)) * 64 + (unat b2 - 0x80)"
      unfolding bs utf8_first_def by (simp_all split: if_splits)
    from c(1) have "0x80 \<le> b1"
      by (auto simp: word_le_nat_alt split: if_splits)
    with three c show ?thesis unfolding v by (intro scalar3) simp_all
  next
    case four
    from assms four obtain b1 b2 b3 r where bs: "bs = b1 # b2 # b3 # r"
      by (cases bs; cases "tl bs"; cases "tl (tl bs)") (auto simp: utf8_first_def)
    from assms four have c: "(if b0 = 0xF0 then 0x90 else 0x80) \<le> b1"
      "b1 \<le> (if b0 = 0xF4 then 0x8F else 0xBF)" "is_cont b2" "is_cont b3"
      and v: "cp = (((unat b0 - 0xF0) * 64 + (unat b1 - 0x80)) * 64
                       + (unat b2 - 0x80)) * 64 + (unat b3 - 0x80)"
      unfolding bs utf8_first_def by (simp_all split: if_splits)
    from four c show ?thesis unfolding v by (intro scalar4) simp_all
  next
    case none
    with assms show ?thesis by (simp add: utf8_first_def)
  qed
qed

lemma utf8_decode_scalar: "utf8_decode bs = Some t \<Longrightarrow> \<forall>cp \<in> set t. is_scalar cp"
proof (induction bs arbitrary: t rule: utf8_decode.induct)
  case 1
  then show ?case by simp
next
  case (2 b0 bs)
  from "2.prems" obtain cp n t' where f: "utf8_first b0 bs = Some (cp, n)"
    and d: "utf8_decode (drop n bs) = Some t'" and t: "t = cp # t'"
    by (auto split: option.splits)
  from "2.IH" [OF f refl d] utf8_first_scalar [OF f] t show ?case by simp
qed

lemma cp1252_high_scalar: "\<forall>cp \<in> set cp1252_high. is_scalar cp"
  by (simp add: cp1252_high_def is_scalar_def)

lemma cp1252_char_scalar: "cp1252_char b = Some cp \<Longrightarrow> is_scalar cp"
proof (cases "0x80 \<le> b \<and> b \<le> 0x9F")
  case True
  assume a: "cp1252_char b = Some cp"
  from True have "unat b - 128 < length cp1252_high"
    by (auto simp: word_le_nat_alt cp1252_high_def)
  then have "cp1252_high ! (unat b - 128) \<in> set cp1252_high" by (rule nth_mem)
  with cp1252_high_scalar have "is_scalar (cp1252_high ! (unat b - 128))" by blast
  with a True show ?thesis
    by (auto simp: cp1252_char_def Let_def split: if_splits)
next
  case False
  assume "cp1252_char b = Some cp"
  with False have "cp = unat b" by (auto simp: cp1252_char_def)
  moreover have "unat b < 256" using unsigned_less [of b, where ?'a = nat] by simp
  ultimately show ?thesis by (simp add: is_scalar_def)
qed

lemma cp1252_decode_scalar: "cp1252_decode bs = Some t \<Longrightarrow> \<forall>cp \<in> set t. is_scalar cp"
  by (induction bs arbitrary: t) (auto split: option.splits dest: cp1252_char_scalar)

lemma decoded_scalar: "decoded raw = Some t \<Longrightarrow> \<forall>cp \<in> set t. is_scalar cp"
  by (auto simp: decoded_def split: option.splits dest: utf8_decode_scalar cp1252_decode_scalar)

lemma loop_records:
  assumes "ff_inv s"
    and "\<forall>(w, raw) \<in> set items. case decoded raw of None \<Rightarrow> False | Some t \<Rightarrow> plain_text t"
    and "FileReader_loop s items = (ds, recs, r)"
  shows "rerun_input items recs (recode items recs)"
  using assms
proof (induction items arbitrary: s ds recs r)
  case Nil
  then show ?case by (simp add: recode_def)
next
  case (Cons item items)
  obtain w1 raw1 where item: "item = (w1, raw1)" by (cases item)
  from Cons.prems(2) item obtain t where t: "decoded raw1 = Some t" "plain_text t"
    by (auto split: option.splits)
  note cp = cleaned_props [OF t(2)]
  from step_total [OF Cons.prems(1), of w1 t] obtain ds3 s' w1' where
    ff1: "FileformatReader_step s (w1, t) = (ds3, Inr (s', (w1', strip_eol t)))"
    and inv': "ff_inv s'"
    by blast
  let ?c = "fst (comment_split (cleaned t))" and ?m = "snd (comment_split (cleaned t))"
  from first_step [OF t(1) ff1] obtain ds1 where
    fr1: "FileReader_step s (w1, raw1) = (ds1, Inr (s', (w1', ?c, ?m)))"
    by blast
  obtain ds' outs r' where lp: "FileReader_loop s' items = (ds', outs, r')"
    by (cases "FileReader_loop s' items") auto
  from Cons.prems(3) item fr1 lp have recs: "recs = (w1', ?c, ?m) # outs"
    by simp
  from Cons.prems(2) have rest_plain:
    "\<forall>(w, raw) \<in> set items. case decoded raw of None \<Rightarrow> False | Some t \<Rightarrow> plain_text t"
    by simp
  note ih = Cons.IH [OF inv' rest_plain lp]
  have cm: "?c @ ?m = cleaned t" by (rule comment_split_concat [OF cp(6)])
  obtain suf where "t = cleaned t @ suf" using cleaned_prefix by blast
  then have "set (cleaned t) \<subseteq> set t" by (metis Un_upper1 set_append)
  with decoded_scalar [OF t(1)] have "\<forall>cp \<in> set (cleaned t). is_scalar cp" by blast
  then have dec: "utf8_decode (utf8_encode (cleaned t)) = Some (cleaned t)"
    by (rule decode_encode)
  have "recode (item # items) recs
      = (w1\<lparr>line := utf8_encode (cleaned t)\<rparr>, utf8_encode (cleaned t)) # recode items outs"
    using cm by (simp add: recode_def item recs split_beta)
  moreover have "rerun_input ((w1, raw1) # items) ((w1', ?c, ?m) # outs)
      ((w1\<lparr>line := utf8_encode (cleaned t)\<rparr>, utf8_encode (cleaned t)) # recode items outs)"
    using ih dec cm by (simp add: rerun_input_Cons same_pos_def)
  ultimately show ?case by (simp add: item recs)
qed

lemmas run_defs = FileReader_iter_def FileReader_step_def EncodingReader_step_def
  NoCtrlReader_step_def FileformatReader_step_def select_fileinfo_def check_line_def
  FileformatReader_finish_def AsteriskCommentReader_step_def comment_split_def
  simple_comment_split_def escape_comment_split_def escape_scan.simps rstrip_blank_def
  utf8_first_def illegal_def endswith_def endswith_blank_def is_blank_def ff_init_def Let_def

lemmas enc_defs = recode_def utf8_encode_def utf8_encode_char_def

text \<open>
  Claim C3, as stated: a second run on the records of a first run gives the same records and
  no diagnostic. The line \<open>a\;b\<close>, a control character 0x01, LF gives the code
  \<open>a;b\<close> 0x01 and an empty comment in the first run; on that text the second run warns
  \<open>W_FILE_CTRL_CHAR\<close> again and splits at the \<open>;\<close>, which is no longer escaped.
\<close>

theorem rerun_differs:
  "FileReader_iter [(x1, [0x61, 0x5C, 0x3B, 0x62, 0x01, 0x0A])]
     = ([W_FILE_CTRL_CHAR x1], [(x1, [0x61, 0x3B, 0x62, 0x01], [])], None)
   \<and> recode [(x1, [0x61, 0x5C, 0x3B, 0x62, 0x01, 0x0A])] [(x1, [0x61, 0x3B, 0x62, 0x01], [])]
     = [(x1c, [0x61, 0x3B, 0x62, 0x01])]
   \<and> FileReader_iter [(x1c, [0x61, 0x3B, 0x62, 0x01])]
     = ([W_FILE_CTRL_CHAR x1c], [(x1c, [0x61], [0x3B, 0x62, 0x01])], None)"
  by (simp add: run_defs enc_defs x1_def x1c_def)

text \<open>
  Claim C3, amended. If every line of the input decodes to a text with a line feed at its
  end only, no illegal control character and no escaped delimiter, the first run ends
  without an exception, and a second run on its output (for each record, the UTF-8 bytes of
  code and comment put together, at the same file name and line number) emits no
  diagnostic and yields records with the same file names, line numbers, codes and comments.
\<close>

theorem rerun_plain:
  assumes "\<forall>(w, raw) \<in> set items. case decoded raw of None \<Rightarrow> False | Some t \<Rightarrow> plain_text t"
    and "FileReader_iter items = (ds1, recs1, err1)"
  shows "err1 = None
     \<and> (\<exists>recs2. FileReader_iter (recode items recs1) = ([], recs2, None)
           \<and> list_all2 same_record recs1 recs2)"
proof -
  obtain dl rl r1 where lp: "FileReader_loop ff_init items = (dl, rl, r1)"
    by (cases "FileReader_loop ff_init items") auto
  have recs: "recs1 = rl"
    using assms(2) lp by (auto simp: FileReader_iter_def split: sum.splits prod.splits)
  from loop_records [OF ff_inv_init assms(1) lp] recs
  have "rerun_input items recs1 (recode items recs1)" by simp
  from rerun_plain_any [OF assms this] show ?thesis .
qed

theorem rerun_plain_witness:
  "FileReader_iter [(y1, [0x61, 0x20, 0x3B, 0x20, 0x63, 0x20, 0x0A])]
     = ([W_WSH_EOL y1], [(y1, [0x61], [0x20, 0x3B, 0x20, 0x63])], None)
   \<and> recode [(y1, [0x61, 0x20, 0x3B, 0x20, 0x63, 0x20, 0x0A])] [(y1, [0x61], [0x20, 0x3B, 0x20, 0x63])]
     = [(y1c, [0x61, 0x20, 0x3B, 0x20, 0x63])]
   \<and> FileReader_iter [(y1c, [0x61, 0x20, 0x3B, 0x20, 0x63])]
     = ([], [(y1c, [0x61], [0x20, 0x3B, 0x20, 0x63])], None)
   \<and> same_record (y1, [0x61], [0x20, 0x3B, 0x20, 0x63]) (y1c, [0x61], [0x20, 0x3B, 0x20, 0x63])"
proof -
  let ?items = "[(y1, [0x61, 0x20, 0x3B, 0x20, 0x63, 0x20, 0x0A])]"
  let ?recs = "[(y1, [0x61], [0x20, 0x3B, 0x20, 0x63])]"
  have h1: "\<forall>(w, raw) \<in> set ?items. case decoded raw of None \<Rightarrow> False | Some t \<Rightarrow> plain_text t"
    by (simp add: decoded_def utf8_first_def plain_text_def illegal_def)
  have h2: "FileReader_iter ?items = ([W_WSH_EOL y1], ?recs, None)"
    by (simp add: run_defs y1_def)
  have rc: "recode ?items ?recs = [(y1c, [0x61, 0x20, 0x3B, 0x20, 0x63])]"
    by (simp add: enc_defs y1_def y1c_def)
  from rerun_plain [OF h1 h2] obtain recs2 where
    r: "FileReader_iter [(y1c, [0x61, 0x20, 0x3B, 0x20, 0x63])] = ([], recs2, None)"
      "list_all2 same_record ?recs recs2"
    unfolding rc by blast
  have "FileReader_iter [(y1c, [0x61, 0x20, 0x3B, 0x20, 0x63])]
     = ([], [(y1c, [0x61], [0x20, 0x3B, 0x20, 0x63])], None)"
    by (simp add: run_defs y1c_def)
  with r have "recs2 = [(y1c, [0x61], [0x20, 0x3B, 0x20, 0x63])]" by simp
  with r(2) have "same_record (y1, [0x61], [0x20, 0x3B, 0x20, 0x63]) (y1c, [0x61], [0x20, 0x3B, 0x20, 0x63])"
    by simp
  with h2 rc r(1) \<open>recs2 = _\<close> show ?thesis by simp
qed

end
